theory Spec2Isabelle
  imports Main "HOL-Library.Word"
begin

unbundle bit_operations_syntax

section \<open>Buffers, strings and errors\<close>

text \<open>
  A Node.js \<open>Buffer\<close> is a list of bytes. JavaScript numbers that occur in the modelled
  code are integers far below \<open>2 ^ 53\<close>, so they are \<open>nat\<close> or \<open>int\<close>. A JavaScript
  string whose code units are below 256 (all strings the codec builds from buffers are)
  is a \<open>string\<close>, one \<open>char\<close> per code unit.

  Every \<open>throw\<close> of the source is a constructor of \<open>error\<close>, named after the message of
  the source; a function that may throw returns \<open>error + 'a\<close>, \<open>Inl\<close> being the throw.
  \<open>RangeError\<close> is the \<open>ERR_OUT_OF_RANGE\<close> of the read and write methods of \<open>Buffer\<close>.
  In the vocabulary of the specification, \<open>Failed_to_link\<close> is \<open>UnresolvedLink\<close>,
  \<open>Unexpected_global_zone\<close> is \<open>UnexpectedGlobalZone\<close>,
  \<open>Sample_data_does_not_match_recorded_checksum\<close> is \<open>ChecksumMismatch\<close>, the three
  chunk errors are \<open>MalformedContainer\<close> and \<open>Malformed_chunk\<close> is \<open>MalformedTable\<close>.
\<close>

type_synonym byte = "8 word"
type_synonym Buffer = "byte list"

datatype error =
    Incomplete_chunk_header
  | Incomplete_chunk_body
  | Missing_type_name
  | Malformed_chunk
  | Unexpected_global_zone
  | Failed_to_link
  | RangeError
  | TypeError
  | Only_PCM_and_EXTENSIBLE_is_supported
  | Only_mono_samples_allowed
  | We_only_deal_in_whole_mytes
  | Unexpected_block_alignment
  | Unexpected_data_rate
  | Only_16_and_24_bit_per_sample_allowed
  | Samples_24bit_not_supported_yet
  | Sample_length_does_not_match_recorded_metadata
  | Only_PCM_subtype_is_supported
  | Sample_data_does_not_match_recorded_checksum
  | Length_mismatch
  | ENOENT
  | Writing_of_the_sm24_chunk_isnt_supported_yet

definition bind_err :: "error + 'a \<Rightarrow> ('a \<Rightarrow> error + 'b) \<Rightarrow> error + 'b" where
  "bind_err m f = (case m of Inl e \<Rightarrow> Inl e | Inr x \<Rightarrow> f x)"

text \<open>\<open>buf.slice(start, end)\<close> for \<open>0 \<le> start\<close>: both ends are clamped to the buffer.\<close>

definition buf_slice :: "'a list \<Rightarrow> nat \<Rightarrow> nat \<Rightarrow> 'a list" where
  "buf_slice buf start end = take (end - start) (drop start buf)"

definition le16 :: "byte \<Rightarrow> byte \<Rightarrow> 16 word" where
  "le16 b0 b1 = word_cat b1 b0"

definition readUInt8 :: "Buffer \<Rightarrow> nat \<Rightarrow> error + int" where
  "readUInt8 buf pos = (if pos < length buf then Inr (uint (buf ! pos)) else Inl RangeError)"

definition readInt8 :: "Buffer \<Rightarrow> nat \<Rightarrow> error + int" where
  "readInt8 buf pos = (if pos < length buf then Inr (sint (buf ! pos)) else Inl RangeError)"

definition readUInt16LE :: "Buffer \<Rightarrow> nat \<Rightarrow> error + int" where
  "readUInt16LE buf pos =
     (if pos + 2 \<le> length buf then Inr (uint (le16 (buf ! pos) (buf ! (pos + 1))))
      else Inl RangeError)"

definition readInt16LE :: "Buffer \<Rightarrow> nat \<Rightarrow> error + int" where
  "readInt16LE buf pos =
     (if pos + 2 \<le> length buf then Inr (sint (le16 (buf ! pos) (buf ! (pos + 1))))
      else Inl RangeError)"

definition u32_at :: "Buffer \<Rightarrow> nat \<Rightarrow> nat" where
  "u32_at buf pos = unat (buf ! pos) + 256 * unat (buf ! (pos + 1))
                      + 65536 * unat (buf ! (pos + 2)) + 16777216 * unat (buf ! (pos + 3))"

definition readUInt32LE :: "Buffer \<Rightarrow> nat \<Rightarrow> error + int" where
  "readUInt32LE buf pos =
     (if pos + 4 \<le> length buf then Inr (int (u32_at buf pos)) else Inl RangeError)"

text \<open>
  \<open>buf.toString("binary", start, end)\<close>: one character per byte, with the same code.
  \<open>buf.toString("ascii", start, end)\<close>: Node.js clears the highest bit of each byte first.
\<close>

definition toString_binary :: "Buffer \<Rightarrow> nat \<Rightarrow> nat \<Rightarrow> string" where
  "toString_binary buf start end = map (\<lambda>b. char_of (unat b)) (buf_slice buf start end)"

definition toString_ascii :: "Buffer \<Rightarrow> nat \<Rightarrow> nat \<Rightarrow> string" where
  "toString_ascii buf start end = map (\<lambda>b. char_of (unat (b AND 0x7F))) (buf_slice buf start end)"

text \<open>
  \<open>str.replace(/c+$/, "")\<close> for a single character \<open>c\<close>: the match is the whole run of
  \<open>c\<close> that ends the string, if there is one, and it is removed.
\<close>

definition replace_trailing :: "char \<Rightarrow> string \<Rightarrow> string" where
  "replace_trailing c s = rev (dropWhile (\<lambda>x. x = c) (rev s))"

text \<open>\<open>String(n)\<close> for a non-negative integer \<open>n\<close>: its decimal digits.\<close>

definition digit_char :: "nat \<Rightarrow> char" where
  "digit_char d = ''0123456789'' ! d"

function String_nat :: "nat \<Rightarrow> string" where
  "String_nat n = (if n < 10 then [digit_char n] else String_nat (n div 10) @ [digit_char (n mod 10)])"
  by pat_completeness auto
termination
  by (relation "measure (\<lambda>n. n)") auto

declare String_nat.simps [simp del]


section \<open>Record tables (class RecordLayout of SF2.js)\<close>

text \<open>
  \<open>Range\<close> is the class of SF2.js; \<open>genAmount\<close> is the object that the decoder \<open>a2\<close>
  returns, the same two bytes read three ways.
\<close>

datatype Range = Range (byLo: int) (byHi: int)

record genAmount =
  ranges :: Range
  shAmount :: int
  wAmount :: int

datatype ftype = U1 | I1 | Z20 | U2 | I2 | U4 | A2

datatype fval = Num int | Str string | Amount genAmount

text \<open>\<open>+type.slice(1)\<close>: the byte width is the number in the name of the type.\<close>

fun ftype_len :: "ftype \<Rightarrow> nat" where
  "ftype_len U1 = 1"
| "ftype_len I1 = 1"
| "ftype_len Z20 = 20"
| "ftype_len U2 = 2"
| "ftype_len I2 = 2"
| "ftype_len U4 = 4"
| "ftype_len A2 = 2"

definition z20 :: "Buffer \<Rightarrow> nat \<Rightarrow> string" where
  "z20 buf pos = replace_trailing (CHR 0x00) (toString_binary buf pos (pos + 20))"

definition a2 :: "Buffer \<Rightarrow> nat \<Rightarrow> error + genAmount" where
  "a2 buf pos =
     bind_err (readInt8 buf pos) (\<lambda>lo.
     bind_err (readInt8 buf (pos + 1)) (\<lambda>hi.
     bind_err (readInt16LE buf pos) (\<lambda>sh.
     bind_err (readUInt16LE buf pos) (\<lambda>w.
       Inr \<lparr>ranges = Range lo hi, shAmount = sh, wAmount = w\<rparr>))))"

fun dec :: "ftype \<Rightarrow> Buffer \<Rightarrow> nat \<Rightarrow> error + fval" where
  "dec U1 buf pos = map_sum id Num (readUInt8 buf pos)"
| "dec I1 buf pos = map_sum id Num (readInt8 buf pos)"
| "dec Z20 buf pos = Inr (Str (z20 buf pos))"
| "dec U2 buf pos = map_sum id Num (readUInt16LE buf pos)"
| "dec I2 buf pos = map_sum id Num (readInt16LE buf pos)"
| "dec U4 buf pos = map_sum id Num (readUInt32LE buf pos)"
| "dec A2 buf pos = map_sum id Amount (a2 buf pos)"

text \<open>
  A layout is the list of its parts, type and name; a decoded row is the list of its
  properties in the order they are set, \<open>id\<close> first.
\<close>

type_synonym layout = "(ftype \<times> string) list"
type_synonym row = "(string \<times> fval) list"

definition layout_len :: "layout \<Rightarrow> nat" where
  "layout_len parts = sum_list (map (\<lambda>p. ftype_len (fst p)) parts)"

fun parse_parts :: "layout \<Rightarrow> Buffer \<Rightarrow> nat \<Rightarrow> error + row" where
  "parse_parts [] data pos = Inr []"
| "parse_parts ((t, name) # parts) data pos =
     bind_err (dec t data pos) (\<lambda>v.
     bind_err (parse_parts parts data (pos + ftype_len t)) (\<lambda>r.
       Inr ((name, v) # r)))"

text \<open>
  The \<open>while (pos < data.length)\<close> loop of \<open>parse\<close>. The loop is entered only after the
  length check, which rejects a layout of width 0 (\<open>data.length % 0\<close> is \<open>NaN\<close>, which is
  true), so the guard on the width changes nothing and gives the termination.
\<close>

function parse_loop :: "layout \<Rightarrow> Buffer \<Rightarrow> nat \<Rightarrow> nat \<Rightarrow> error + row list" where
  "parse_loop parts data pos i =
     (if pos < length data \<and> 0 < layout_len parts then
        bind_err (parse_parts parts data pos) (\<lambda>r.
        bind_err (parse_loop parts data (pos + layout_len parts) (i + 1)) (\<lambda>res.
          Inr (((''id'', Num (int i)) # r) # res)))
      else Inr [])"
  by pat_completeness auto
termination
  by (relation "measure (\<lambda>(parts, data, pos, i). length data - pos)") auto

declare parse_loop.simps [simp del]

definition parse :: "layout \<Rightarrow> Buffer \<Rightarrow> error + row list" where
  "parse parts data =
     (if layout_len parts = 0 \<or> length data mod layout_len parts \<noteq> 0 \<or> length data = 0
      then Inl Malformed_chunk
      else parse_loop parts data 0 0)"

definition pgen_layout :: layout where
  "pgen_layout = [(U2, ''sfGenOper''), (A2, ''genAmount'')]"

definition inst_layout :: layout where
  "inst_layout = [(Z20, ''achInstName''), (U2, ''wInstBagNdx'')]"


section \<open>Generators (class Generator of SF2.js)\<close>

record Generator =
  sfGenOper :: int
  genAmount :: genAmount

definition Generator_names :: "string list" where
  "Generator_names =
    [''startAddrsOffset'', ''endAddrsOffset'', ''startloopAddrsOffset'',
     ''endloopAddrsOffset'', ''startAddrsCoarseOffset'', ''modLfoToPitch'',
     ''vibLfoToPitch'', ''modEnvToPitch'', ''initialFilterFc'', ''initialFilterQ'',
     ''modLfoToFilterFc'', ''modEnvToFilterFc'', ''endAddrsCoarseOffset'',
     ''modLfoToVolume'', ''unused1'', ''chorusEffectsSend'', ''reverbEffectsSend'',
     ''pan'', ''unused2'', ''unused3'', ''unused4'', ''delayModLFO'', ''freqModLFO'',
     ''delayVibLFO'', ''freqVibLFO'', ''delayModEnv'', ''attackModEnv'', ''holdModEnv'',
     ''decayModEnv'', ''sustainModEnv'', ''releaseModEnv'', ''keynumToModEnvHold'',
     ''keynumToModEnvDecay'', ''delayVolEnv'', ''attackVolEnv'', ''holdVolEnv'',
     ''decayVolEnv'', ''sustainVolEnv'', ''releaseVolEnv'', ''keynumToVolEnvHold'',
     ''keynumToVolEnvDecay'', ''instrument'', ''reserved1'', ''keyRange'', ''velRange'',
     ''startloopAddrsCoarseOffset'', ''keynum'', ''velocity'', ''initialAttenuation'',
     ''reserved2'', ''endloopAddrsCoarseOffset'', ''coarseTune'', ''fineTune'',
     ''sampleID'', ''sampleModes'', ''reserved3'', ''scaleTuning'', ''exclusiveClass'',
     ''overridingRootKey'', ''unused5'', ''endOper'']"

text \<open>
  \<open>Generator.names[this.sfGenOper] || String(this.sfGenOper)\<close>: an index outside the
  array reads \<open>undefined\<close>, and \<open>undefined\<close> and the empty string are false.
  The operator is decoded by \<open>u2\<close>, so it is never negative.
\<close>

definition name :: "Generator \<Rightarrow> string" where
  "name g =
     (let i = nat (sfGenOper g) in
      if i < length Generator_names \<and> Generator_names ! i \<noteq> []
      then Generator_names ! i else String_nat i)"

datatype kind = Index | RangeKind | Substitution | Sample | Value

definition kind :: "Generator \<Rightarrow> kind" where
  "kind g =
     (let c = sfGenOper g in
      if c = 41 \<or> c = 53 then Index
      else if c = 43 \<or> c = 44 then RangeKind
      else if c = 46 \<or> c = 47 then Substitution
      else if c = 0 \<or> c = 1 \<or> c = 2 \<or> c = 3 \<or> c = 4 \<or> c = 12 \<or> c = 45 \<or> c = 50
              \<or> c = 54 \<or> c = 58 \<or> c = 57 then Sample
      else Value)"

text \<open>The value of a generator is a \<open>Range\<close> object or a number.\<close>

datatype gvalue = RangeV Range | NumV int

definition "value" :: "Generator \<Rightarrow> gvalue" where
  "value g =
     (case kind g of
        RangeKind \<Rightarrow> RangeV (ranges (genAmount g))
      | Index \<Rightarrow> NumV (wAmount (genAmount g))
      | _ \<Rightarrow> NumV (shAmount (genAmount g)))"

text \<open>
  \<open>new Generator(data)\<close> for a decoded row of the \<open>pgen\<close> or \<open>igen\<close> table, and
  \<open>Generator.build\<close>, which maps it over the rows. A row of another shape would make
  the fields \<open>undefined\<close>; rows decoded with \<open>pgen_layout\<close> always have both.
\<close>

definition new_Generator :: "row \<Rightarrow> error + Generator" where
  "new_Generator r =
     (case (map_of r ''sfGenOper'', map_of r ''genAmount'') of
        (Some (Num c), Some (Amount a)) \<Rightarrow> Inr \<lparr>sfGenOper = c, genAmount = a\<rparr>
      | _ \<Rightarrow> Inl TypeError)"

fun build :: "row list \<Rightarrow> error + Generator list" where
  "build [] = Inr []"
| "build (r # rs) =
     bind_err (new_Generator r) (\<lambda>g. bind_err (build rs) (\<lambda>gs. Inr (g # gs)))"

text \<open>The getters \<open>pgen\<close> and \<open>igen\<close> of class SF2, given the data of the chunk.\<close>

definition pgen :: "Buffer \<Rightarrow> error + Generator list" where
  "pgen data = bind_err (parse pgen_layout data) build"

text \<open>
  The generator that row \<open>k\<close> of a generator table decodes to, written out from the four
  bytes of the row: operator at offset 0, amount at offset 2.
\<close>

definition gen_at :: "Buffer \<Rightarrow> nat \<Rightarrow> Generator" where
  "gen_at data k =
     \<lparr>sfGenOper = uint (le16 (data ! (4 * k)) (data ! (4 * k + 1))),
      genAmount = \<lparr>ranges = Range (sint (data ! (4 * k + 2))) (sint (data ! (4 * k + 3))),
                   shAmount = sint (le16 (data ! (4 * k + 2)) (data ! (4 * k + 3))),
                   wAmount = uint (le16 (data ! (4 * k + 2)) (data ! (4 * k + 3)))\<rparr>\<rparr>"


subsection \<open>The encoders of the field types\<close>

text \<open>
  Modelled from the spec: the encoding direction of \<open>RecordLayout\<close> (the method \<open>write\<close>
  that yamltosf2.js calls) is not in the sources. The specification says of it that a
  fixed 20-byte text field is "padded with zero bytes on encode up to the fixed width".
\<close>

definition write_z20 :: "string \<Rightarrow> Buffer" where
  "write_z20 s = map (\<lambda>c. of_nat (of_char c)) s @ replicate (20 - length s) 0"

text \<open>
  Modelled from the spec: the encoder of a range amount is not in the sources either.
  The specification calls the range "two signed bytes, low/high"; each is written back
  as one byte.
\<close>

definition write_ranges :: "Range \<Rightarrow> Buffer" where
  "write_ranges r = [word_of_int (byLo r), word_of_int (byHi r)]"


section \<open>Zones (SF2._localZones of SF2.js)\<close>

text \<open>
  A bag row after the getters \<open>pbag\<close> and \<open>ibag\<close> have attached its slices of the
  generator and modulator tables: the two properties that \<open>_localZones\<close> reads.
\<close>

record bag =
  gens :: "Generator list"
  mods :: "row list"

text \<open>
  The object that \<open>_localZones\<close> builds for a zone has the properties \<open>gens\<close> and
  \<open>mods\<close>, one property per generator name, and in the end the linked row under the
  name \<open>local\<close>. It is a map from property names to property values; \<open>'l\<close> is the type
  of the rows of the table linked to.
\<close>

datatype 'l pval = Gens "Generator list" | Mods "row list" | GenValue gvalue | Linked 'l

type_synonym 'l zone = "string \<Rightarrow> 'l pval option"

text \<open>
  The callback of \<open>zones.map\<close>. \<open>z.mods\<close> is an array, which is true even when empty,
  so \<open>res.mods\<close> is always set. A later generator of the same name overwrites an
  earlier one.
\<close>

definition zone_object :: "bag \<Rightarrow> 'l zone" where
  "zone_object z =
     fold (\<lambda>g res. res(name g \<mapsto> GenValue (value g))) (gens z)
       [''gens'' \<mapsto> Gens (gens z), ''mods'' \<mapsto> Mods (mods z)]"

text \<open>
  \<open>for (let name in global) if (!z.hasOwnProperty(name)) z[name] = global[name]\<close>:
  each name is written at most once, so the order of the names does not matter.
\<close>

definition inherit :: "'l zone \<Rightarrow> 'l zone \<Rightarrow> 'l zone" where
  "inherit global z = (\<lambda>name. case z name of None \<Rightarrow> global name | Some v \<Rightarrow> Some v)"

text \<open>
  The \<open>if (!zones[0].hasOwnProperty(local))\<close> block, for a non-empty list of zone
  objects: the global zone that \<open>zones.shift()\<close> took off, if any, and the zones that
  remain.
\<close>

definition shift_global :: "'l zone list \<Rightarrow> string \<Rightarrow> 'l zone option \<times> 'l zone list" where
  "shift_global zones local =
     (if hd zones local = None then (Some (hd zones), map (inherit (hd zones)) (tl zones))
      else (None, zones))"

text \<open>
  \<open>link[id]\<close> followed by the test \<open>!dst\<close>. The rows of \<open>link\<close> are objects, which are
  true, so the test fails exactly when the index reads \<open>undefined\<close>: when \<open>id\<close> is a
  number outside the array, or is not a number at all.
\<close>

definition link_at :: "'l list \<Rightarrow> 'l pval \<Rightarrow> 'l option" where
  "link_at link i =
     (case i of
        GenValue (NumV n) \<Rightarrow> if 0 \<le> n \<and> nat n < length link then Some (link ! nat n) else None
      | _ \<Rightarrow> None)"

text \<open>The last loop of \<open>_localZones\<close>: it stops at the first zone that throws.\<close>

fun link_zones :: "'l zone list \<Rightarrow> string \<Rightarrow> 'l list \<Rightarrow> error + 'l zone list" where
  "link_zones [] local link = Inr []"
| "link_zones (z # zones) local link =
     (case z local of
        None \<Rightarrow> Inl Unexpected_global_zone
      | Some i \<Rightarrow>
          (case link_at link i of
             None \<Rightarrow> Inl Failed_to_link
           | Some dst \<Rightarrow>
               bind_err (link_zones zones local link) (\<lambda>res.
                 Inr (z(local \<mapsto> Linked dst) # res))))"

definition localZones :: "bag list \<Rightarrow> string \<Rightarrow> 'l list \<Rightarrow> error + 'l zone list" where
  "localZones zones local link =
     (if zones = [] then Inr []
      else link_zones (snd (shift_global (map zone_object zones) local)) local link)"


section \<open>Zones in the text form (YamlGen.preset and YamlGen.instrument)\<close>

text \<open>
  The values of the text form: a number, a string, or \<open>undefined\<close>. \<open>String(v)\<close> of a
  \<open>Range\<close> is \<open>byLo-byHi\<close>.
\<close>

datatype yval = YNum int | YStr string | YUndefined

definition String_int :: "int \<Rightarrow> string" where
  "String_int i = (if i < 0 then CHR ''-'' # String_nat (nat (- i)) else String_nat (nat i))"

definition Range_toString :: "Range \<Rightarrow> string" where
  "Range_toString r = String_int (byLo r) @ CHR ''-'' # String_int (byHi r)"

definition truthy :: "yval \<Rightarrow> bool" where
  "truthy v = (case v of YNum n \<Rightarrow> n \<noteq> 0 | YStr s \<Rightarrow> s \<noteq> [] | YUndefined \<Rightarrow> False)"

text \<open>
  \<open>names[v]\<close> for the list of file names \<open>this.instruments\<close> or \<open>this.samples\<close>:
  \<open>undefined\<close> outside the list.
\<close>

definition names_at :: "string list \<Rightarrow> yval \<Rightarrow> yval" where
  "names_at names v =
     (case v of
        YNum n \<Rightarrow> if 0 \<le> n \<and> nat n < length names then YStr (names ! nat n) else YUndefined
      | _ \<Rightarrow> YUndefined)"

text \<open>
  The callback of \<open>z.gens.map\<close>: the one-property object \<open>{[g.name]: v}\<close>, as the pair of
  its name and value. \<open>ref\<close> is \<open>instrument\<close> in \<open>preset\<close> and \<open>sampleID\<close> in
  \<open>instrument\<close>.
\<close>

definition yaml_gen :: "string list \<Rightarrow> string \<Rightarrow> Generator \<Rightarrow> string \<times> yval" where
  "yaml_gen names ref g =
     (let v = (case value g of RangeV r \<Rightarrow> YStr (Range_toString r) | NumV n \<Rightarrow> YNum n)
      in (name g, if name g = ref then names_at names v else v))"

text \<open>Reading property \<open>key\<close> of a one-property object.\<close>

definition get_prop :: "string \<times> yval \<Rightarrow> string \<Rightarrow> yval" where
  "get_prop kv key = (if fst kv = key then snd kv else YUndefined)"

text \<open>The zone \<open>r\<close> of the text form: \<open>gens\<close> and \<open>mods\<close> are set only when not empty.\<close>

record yzone =
  ygens :: "(string \<times> yval) list option"
  ymods :: "row list option"

definition yaml_zone :: "string list \<Rightarrow> string \<Rightarrow> bag \<Rightarrow> yzone" where
  "yaml_zone names ref z =
     \<lparr>ygens = (if gens z \<noteq> [] then Some (map (yaml_gen names ref) (gens z)) else None),
      ymods = (if mods z \<noteq> [] then Some (mods z) else None)\<rparr>"

text \<open>
  \<open>preset\<close> and \<open>instrument\<close>, restricted to the properties \<open>global\<close> and \<open>zones\<close> of
  their result (the header fields are copied unchanged).

  \<open>preset\<close> is the method of src/src/sf2toyaml.js, whose test for the global zone reads
  \<open>res.zones.length && res.zones[0].gens.length && !...instrument\<close>: for a first zone
  without generators, whose \<open>gens\<close> is not set, reading \<open>gens.length\<close> throws a
  \<open>TypeError\<close>.
\<close>

definition preset :: "string list \<Rightarrow> bag list \<Rightarrow> error + yzone option \<times> yzone list" where
  "preset instruments zones =
     (let zs = map (yaml_zone instruments ''instrument'') zones in
      if zs = [] then Inr (None, zs)
      else
        (case ygens (hd zs) of
           None \<Rightarrow> Inl TypeError
         | Some gs \<Rightarrow>
             if gs \<noteq> [] \<and> \<not> truthy (get_prop (last gs) ''instrument'')
             then Inr (Some (hd zs), tl zs)
             else Inr (None, zs)))"

text \<open>
  \<open>preset\<close> of src/unnamed/part_002, where the test has \<open>res.zones[0].gens &&\<close> before
  \<open>res.zones[0].gens.length\<close>, so that nothing throws.
\<close>

definition preset_guarded :: "string list \<Rightarrow> bag list \<Rightarrow> yzone option \<times> yzone list" where
  "preset_guarded instruments zones =
     (let zs = map (yaml_zone instruments ''instrument'') zones in
      if zs \<noteq> [] \<and>
         (case ygens (hd zs) of
            None \<Rightarrow> False
          | Some gs \<Rightarrow> gs \<noteq> [] \<and> \<not> truthy (get_prop (last gs) ''instrument''))
      then (Some (hd zs), tl zs)
      else (None, zs))"

text \<open>
  \<open>instrument\<close>, the same in both files: the test for the global zone starts with
  \<open>false &&\<close>, so it never takes a zone off and never reads the generators.
\<close>

definition instrument :: "string list \<Rightarrow> bag list \<Rightarrow> yzone option \<times> yzone list" where
  "instrument samples zones =
     (let zs = map (yaml_zone samples ''sampleID'') zones in
      if False \<and> zs \<noteq> [] \<and>
         (case ygens (hd zs) of
            None \<Rightarrow> False
          | Some gs \<Rightarrow> gs \<noteq> [] \<and> \<not> truthy (get_prop (last gs) ''sampleID''))
      then (Some (hd zs), tl zs)
      else (None, zs))"


section \<open>The sample sequence, decoding (YamlGen.sdta)\<close>

text \<open>
  \<open>sdta\<close> turns the sample headers into the list \<open>seq\<close> of segments of the sample
  buffer and returns the list that becomes \<open>sdta.yml\<close>: the names of the segments, with
  gap markers in between. The model covers this computation. The files written on the
  way (one WAV file and one descriptor per segment) are left out.

  The data of the \<open>smpl\<close> chunk is modelled as its list of 16-bit sample points, so that
  \<open>smpl.data.readUInt16LE(j << 1)\<close> reads point \<open>j\<close> and \<open>smpl.data.length / 2\<close> is the
  number of points; the data of the optional \<open>sm24\<close> chunk is a list of bytes. Both
  reads throw a \<open>RangeError\<close> outside the data.
\<close>

record segment =
  seg_name :: string
  seg_start :: nat
  seg_end :: nat
  rate :: nat

text \<open>
  The object \<open>link\<close> made for a sample header, given the file name \<open>this.samples[s.id]\<close>
  and the fields \<open>dwStart\<close>, \<open>dwEnd\<close> and \<open>dwSamplerRate\<close> of the header (all decoded by
  \<open>u4\<close>, so not negative). The first loop keeps the first header of each start offset.
\<close>

fun declared :: "(string \<times> nat \<times> nat \<times> nat) list \<Rightarrow> nat list \<Rightarrow> segment list" where
  "declared [] seen = []"
| "declared ((n, dwStart, dwEnd, dwSamplerRate) # shdr) seen =
     (if dwStart \<in> set seen then declared shdr seen
      else \<lparr>seg_name = n, seg_start = dwStart, seg_end = dwEnd, rate = dwSamplerRate\<rparr>
             # declared shdr (dwStart # seen))"

text \<open>The test of the inner loop, for the points \<open>j\<close> with \<open>lo \<le> j < hi\<close> in turn.\<close>

function nonzero_in :: "16 word list \<Rightarrow> byte list option \<Rightarrow> nat \<Rightarrow> nat \<Rightarrow> error + bool" where
  "nonzero_in smpl sm24 j hi =
     (if j < hi then
        (if \<not> j < length smpl then Inl RangeError
         else if smpl ! j \<noteq> 0 then Inr True
         else (case sm24 of
                 None \<Rightarrow> nonzero_in smpl sm24 (j + 1) hi
               | Some d \<Rightarrow>
                   if \<not> j < length d then Inl RangeError
                   else if d ! j \<noteq> 0 then Inr True
                   else nonzero_in smpl sm24 (j + 1) hi))
      else Inr False)"
  by pat_completeness auto
termination
  by (relation "measure (\<lambda>(smpl, sm24, j, hi). hi - j)") auto

declare nonzero_in.simps [simp del]

text \<open>
  What the inner loop looks for: a point \<open>k\<close> with \<open>lo \<le> k < hi\<close> that is not zero in
  one of the two streams.
\<close>

definition has_data :: "16 word list \<Rightarrow> byte list option \<Rightarrow> nat \<Rightarrow> nat \<Rightarrow> bool" where
  "has_data smpl sm24 lo hi =
     (\<exists>k \<in> {lo ..< hi}. smpl ! k \<noteq> 0 \<or> (case sm24 of None \<Rightarrow> False | Some d \<Rightarrow> d ! k \<noteq> 0))"

text \<open>The segment spliced into \<open>seq\<close> for a gap with data, \<open>a\<close> having its end clamped.\<close>

definition hidden :: "segment \<Rightarrow> segment \<Rightarrow> segment" where
  "hidden a b =
     \<lparr>seg_name = seg_name a @ ''_'', seg_start = seg_end a, seg_end = seg_start b,
      rate = rate a\<rparr>"

definition clamp_end :: "segment \<Rightarrow> segment \<Rightarrow> segment" where
  "clamp_end a b = (if seg_end a > seg_start b then a\<lparr>seg_end := seg_start b\<rparr> else a)"

text \<open>
  The loop \<open>for (let i = 1; i < seq.length; ++i)\<close> on the rest of \<open>seq\<close> from
  \<open>seq[i - 1]\<close> on. After a splice the next round meets the spliced segment as \<open>a\<close> and
  the same \<open>b\<close>. A segment is spliced in only when the inner loop has run, that is when
  the gap is not empty, and the spliced segment leaves no gap before \<open>b\<close>: this gives the
  termination.
\<close>

lemma nonzero_in_True_less: "nonzero_in smpl sm24 j hi = Inr True \<Longrightarrow> j < hi"
  by (subst (asm) nonzero_in.simps) (simp split: if_splits)

function scan :: "16 word list \<Rightarrow> byte list option \<Rightarrow> segment list \<Rightarrow> error + segment list" where
  "scan smpl sm24 [] = Inr []"
| "scan smpl sm24 [a] = Inr [a]"
| "scan smpl sm24 (a # b # rest) =
     (case nonzero_in smpl sm24 (seg_end (clamp_end a b)) (seg_start b) of
        Inl e \<Rightarrow> Inl e
      | Inr nz \<Rightarrow>
          (case (if nz then scan smpl sm24 (hidden (clamp_end a b) b # b # rest)
                 else scan smpl sm24 (b # rest)) of
             Inl e \<Rightarrow> Inl e
           | Inr r \<Rightarrow> Inr (clamp_end a b # r)))"
  by pat_completeness auto
termination
proof (relation "measure (\<lambda>(smpl, sm24, xs).
         2 * length xs +
         (case xs of a # b # _ \<Rightarrow> if seg_end (clamp_end a b) < seg_start b then 1 else 0
                   | _ \<Rightarrow> 0))", goal_cases)
  case 1
  show ?case by simp
next
  case (2 smpl sm24 a b rest nz)
  then have "seg_end (clamp_end a b) < seg_start b"
    by (auto dest: nonzero_in_True_less)
  then show ?case by (simp add: hidden_def clamp_end_def)
next
  case (3 smpl sm24 a b rest nz)
  then show ?case by (simp split: list.splits)
qed

declare scan.simps [simp del]

text \<open>
  The whole construction of \<open>seq\<close>: the declared segments sorted by start, a segment
  \<open>_\<close> in front when the first does not start at 0, the segment \<open>_END_\<close> at the end of
  the buffer, and the scan. \<open>seq[0]\<close> of an empty list is \<open>undefined\<close>, and reading its
  \<open>start\<close> is a \<open>TypeError\<close>. The starts of the declared segments are distinct, so the
  order after \<open>seq.sort\<close> does not depend on the sorting algorithm.
\<close>

definition sdta_seq ::
  "(string \<times> nat \<times> nat \<times> nat) list \<Rightarrow> 16 word list \<Rightarrow> byte list option \<Rightarrow> error + segment list"
where
  "sdta_seq shdr smpl sm24 =
     (case sort_key seg_start (declared shdr []) of
        [] \<Rightarrow> Inl TypeError
      | s # seq \<Rightarrow>
          scan smpl sm24
            ((if seg_start s \<noteq> 0
              then [\<lparr>seg_name = ''_'', seg_start = 0, seg_end = seg_start s, rate = 44100\<rparr>]
              else [])
             @ (s # seq)
             @ [\<lparr>seg_name = ''_END_'', seg_start = length smpl, seg_end = length smpl,
                 rate = 44100\<rparr>]))"

text \<open>
  The items of \<open>sdta.yml\<close>: the name of a segment, or a gap marker \<open>{gap: n}\<close>.
  After the scan \<open>s.next\<close> is the segment that follows \<open>s\<close> in \<open>seq\<close>, and the end of a
  segment is at most the start of the next, so the gap is a natural number. The last
  loop runs over \<open>seq\<close> without its last segment \<open>_END_\<close>, which \<open>seq.pop()\<close> took off.

  There are two versions of this loop in the sources. \<open>sdta_items\<close> is the loop of the
  later version of sf2toyaml.js (the one with \<open>gaplen\<close>), \<open>sdta_items_32\<close> is the loop of
  src/sf2toyaml.js, which compares every gap with 32.
\<close>

datatype item = Name string | Gap nat

fun sdta_items :: "segment list \<Rightarrow> nat \<Rightarrow> item list" where
  "sdta_items (s # n # seq) gaplen =
     (if seg_start n - seg_end s \<noteq> gaplen
      then Name (seg_name s) # Gap (seg_start n - seg_end s)
             # sdta_items (n # seq) (seg_start n - seg_end s)
      else Name (seg_name s) # sdta_items (n # seq) gaplen)"
| "sdta_items seq gaplen = []"

fun sdta_items_32 :: "segment list \<Rightarrow> item list" where
  "sdta_items_32 (s # n # seq) =
     (if seg_start n - seg_end s \<noteq> 32
      then Name (seg_name s) # Gap (seg_start n - seg_end s) # sdta_items_32 (n # seq)
      else Name (seg_name s) # sdta_items_32 (n # seq))"
| "sdta_items_32 seq = []"

definition YamlGen_sdta ::
  "(string \<times> nat \<times> nat \<times> nat) list \<Rightarrow> 16 word list \<Rightarrow> byte list option \<Rightarrow> error + item list"
where
  "YamlGen_sdta shdr smpl sm24 = map_sum id (\<lambda>seq. sdta_items seq 32) (sdta_seq shdr smpl sm24)"

definition YamlGen_sdta_32 ::
  "(string \<times> nat \<times> nat \<times> nat) list \<Rightarrow> 16 word list \<Rightarrow> byte list option \<Rightarrow> error + item list"
where
  "YamlGen_sdta_32 shdr smpl sm24 = map_sum id sdta_items_32 (sdta_seq shdr smpl sm24)"


section \<open>The sample sequence, encoding (YamlParse.sdta16 and YamlParse.sdta)\<close>

text \<open>
  \<open>buf.writeUInt32LE(value, offset)\<close> throws a \<open>RangeError\<close> unless
  \<open>0 \<le> value < 2 ^ 32\<close>; \<open>u32le\<close> is the four bytes it writes. \<open>ascii_bytes\<close> is what
  \<open>buf.write(str, offset, "ascii")\<close> writes for a string.
\<close>

definition u32le_bytes :: "nat \<Rightarrow> Buffer" where
  "u32le_bytes n = [of_nat n, of_nat (n div 256), of_nat (n div 65536), of_nat (n div 16777216)]"

definition u32le :: "int \<Rightarrow> error + Buffer" where
  "u32le v = (if 0 \<le> v \<and> v < 4294967296 then Inr (u32le_bytes (nat v)) else Inl RangeError)"

definition ascii_bytes :: "string \<Rightarrow> Buffer" where
  "ascii_bytes s = map (\<lambda>c. of_nat (of_char c)) s"

text \<open>
  The items that \<open>sdta16\<close> gets: a gap marker \<open>{gap: n}\<close>, or what \<open>readWav\<close> returned for
  a sample, \<open>{meta, wav: {data}}\<close>. Of \<open>meta\<close> the model keeps the object \<open>meta.sdta\<close>:
  the length in sample points and the checksums.
\<close>

record meta =
  meta_length :: nat
  meta_smpl :: string
  meta_sm24 :: "string option"

datatype entry = GapEntry nat | SampleEntry meta Buffer

text \<open>
  The variables of the loop of \<open>sdta16\<close>. \<open>positions\<close> collects the values assigned
  to \<open>s.meta.pos\<close>, in the order of the samples.
\<close>

record sdta16_state =
  st_gaplen :: nat
  st_zeros :: Buffer
  st_gap :: Buffer
  st_samples :: "Buffer list"
  st_len :: int
  st_positions :: "int list"

text \<open>\<open>samples.pop()\<close> takes the last element off, and does nothing on an empty array.\<close>

fun sdta16_loop :: "entry list \<Rightarrow> sdta16_state \<Rightarrow> error + sdta16_state" where
  "sdta16_loop [] st = Inr st"
| "sdta16_loop (GapEntry g # lst) st =
     (let zeros' = (if length (st_zeros st) < 2 * g then replicate (2 * g) 0 else st_zeros st);
          gap' = (if length (st_zeros st) < 2 * g then zeros' else buf_slice (st_zeros st) 0 (2 * g))
      in sdta16_loop lst
           (st\<lparr>st_len := st_len st + (int g - int (st_gaplen st)), st_gaplen := g, st_zeros := zeros',
               st_gap := gap', st_samples := butlast (st_samples st) @ [gap']\<rparr>))"
| "sdta16_loop (SampleEntry m d # lst) st =
     (if length d \<noteq> 2 * meta_length m then Inl Length_mismatch
      else sdta16_loop lst
             (st\<lparr>st_positions := st_positions st @ [st_len st],
                 st_samples := st_samples st @ [d, st_gap st],
                 st_len := st_len st + int (meta_length m) + int (st_gaplen st)\<rparr>))"

text \<open>
  \<open>sdta16\<close> returns the list of buffers, the head first; the model returns with it the
  positions assigned to the samples.
\<close>

definition sdta16 :: "entry list \<Rightarrow> error + Buffer list \<times> int list" where
  "sdta16 lst =
     bind_err (sdta16_loop lst
                 \<lparr>st_gaplen = 32, st_zeros = replicate (2 * 32) 0, st_gap = replicate (2 * 32) 0,
                  st_samples = [], st_len = 0, st_positions = []\<rparr>) (\<lambda>st.
     bind_err (u32le (2 * st_len st + 12)) (\<lambda>l1.
     bind_err (u32le (2 * st_len st)) (\<lambda>l2.
       Inr ((ascii_bytes ''LIST'' @ l1 @ ascii_bytes ''sdta'' @ ascii_bytes ''smpl'' @ l2)
              # st_samples st,
            st_positions st))))"

definition sdta24 :: "entry list \<Rightarrow> error + Buffer list \<times> int list" where
  "sdta24 lst = Inl Writing_of_the_sm24_chunk_isnt_supported_yet"

text \<open>
  \<open>lst.every(s => !s.meta.sdta || s.meta.sdta.sm24)\<close>: \<open>every\<close> stops at the first item
  for which the callback is false. A gap marker has no \<open>meta\<close>, so the callback throws a
  \<open>TypeError\<close> on it. \<open>meta.sdta\<close> is an object, and a checksum is true when it is
  present and not the empty string.
\<close>

fun every_sm24 :: "entry list \<Rightarrow> error + bool" where
  "every_sm24 [] = Inr True"
| "every_sm24 (GapEntry g # lst) = Inl TypeError"
| "every_sm24 (SampleEntry m d # lst) =
     (if (case meta_sm24 m of None \<Rightarrow> False | Some h \<Rightarrow> h \<noteq> []) then every_sm24 lst
      else Inr False)"

definition YamlParse_sdta :: "entry list \<Rightarrow> error + Buffer list \<times> int list" where
  "YamlParse_sdta lst =
     bind_err (every_sm24 lst) (\<lambda>all24. if all24 then sdta24 lst else sdta16 lst)"


section \<open>Containers (classes Chunk and RIFF of SF2.js)\<close>

text \<open>
  A parsed chunk is a \<open>Chunk\<close>, with its id and data, or a \<open>RIFF\<close> object, with its id
  (the type tag), the flag \<open>isList\<close>, its data (the payload after the type tag) and its
  chunks.
\<close>

datatype chunk =
    Chunk string Buffer
  | RIFF string bool Buffer "chunk list"

text \<open>
  The constructor of \<open>RIFF\<close>: the chunks of \<open>buf\<close> from \<open>pos\<close> on. The handler
  \<open>this["chunk_" + id]\<close> exists for the ids \<open>RIFF\<close> and \<open>LIST\<close>; \<open>chunk_RIFF\<close> throws when
  the data is shorter than the type tag and parses the rest of the data as a new
  \<open>RIFF\<close>, \<open>chunk_LIST\<close> does the same and sets \<open>isList\<close>. The length is read inside the
  buffer, after the test for the header. \<open>len & 1\<close> is the lowest bit of the length.
\<close>

function RIFF_chunks :: "Buffer \<Rightarrow> nat \<Rightarrow> error + chunk list" where
  "RIFF_chunks buf pos =
     (if pos < length buf then
        if pos + 8 > length buf then Inl Incomplete_chunk_header
        else
          let id0 = toString_ascii buf pos (pos + 4);
              len = u32_at buf (pos + 4)
          in
            if pos + 8 + len > length buf then Inl Incomplete_chunk_body
            else
              let id1 = replace_trailing CHR '' '' id0;
                  data = buf_slice buf (pos + 8) (pos + 8 + len)
              in
                (case
                   (if id1 = ''RIFF'' \<or> id1 = ''LIST'' then
                      if length data < 4 then Inl Missing_type_name
                      else
                        (case RIFF_chunks (buf_slice data 4 (length data)) 0 of
                           Inl e \<Rightarrow> Inl e
                         | Inr cs \<Rightarrow>
                             Inr (RIFF (replace_trailing CHR '' '' (toString_ascii data 0 4))
                                       (id1 = ''LIST'') (buf_slice data 4 (length data)) cs))
                    else Inr (Chunk id1 data))
                 of
                   Inl e \<Rightarrow> Inl e
                 | Inr res \<Rightarrow>
                     (case RIFF_chunks buf (pos + 8 + len + len mod 2) of
                        Inl e \<Rightarrow> Inl e
                      | Inr rest \<Rightarrow> Inr (res # rest)))
      else Inr [])"
  by pat_completeness auto
termination
  apply (relation "measures [\<lambda>(buf, pos). length buf, \<lambda>(buf, pos). length buf - pos]")
    apply simp
   apply (auto simp: buf_slice_def)
  done

declare RIFF_chunks.simps [simp del]

text \<open>\<open>new RIFF(buf)\<close>: the chunks of the whole buffer.\<close>

definition new_RIFF :: "Buffer \<Rightarrow> error + chunk list" where
  "new_RIFF buf = RIFF_chunks buf 0"

fun chunk_id :: "chunk \<Rightarrow> string" where
  "chunk_id (Chunk i d) = i"
| "chunk_id (RIFF i l d cs) = i"

fun chunk_data :: "chunk \<Rightarrow> Buffer" where
  "chunk_data (Chunk i d) = d"
| "chunk_data (RIFF i l d cs) = d"

text \<open>\<open>firstForName\<close> on the chunks of a \<open>RIFF\<close>; \<open>None\<close> is \<open>null\<close>.\<close>

fun firstForName :: "chunk list \<Rightarrow> string \<Rightarrow> chunk option" where
  "firstForName [] n = None"
| "firstForName (c # cs) n = (if chunk_id c = n then Some c else firstForName cs n)"


section \<open>Writing containers (YamlParse.riffChunk and riffList)\<close>

text \<open>
  \<open>buf.write(str, offset, 4, "ascii")\<close> into four bytes that \<open>Buffer.alloc\<close> has filled
  with spaces: the first four characters of the string, and spaces after a shorter one.
\<close>

definition pad4 :: "string \<Rightarrow> Buffer" where
  "pad4 s = take 4 (ascii_bytes s @ replicate 4 32)"

definition riffChunk :: "string \<Rightarrow> Buffer \<Rightarrow> error + Buffer" where
  "riffChunk i buf = bind_err (u32le (int (length buf))) (\<lambda>l. Inr (pad4 i @ l @ buf))"

text \<open>
  \<open>parts\<close> is a list of lists of buffers, which \<open>[].concat.apply([], parts)\<close> flattens
  by one level. The result is the list of buffers with the head in front.
\<close>

definition riffList :: "string \<Rightarrow> string \<Rightarrow> Buffer list list \<Rightarrow> error + Buffer list" where
  "riffList i type parts =
     (let bufs = concat parts;
          len = 4 + sum_list (map length bufs)
      in bind_err (u32le (int len)) (\<lambda>l. Inr ((pad4 i @ l @ pad4 type) # bufs)))"

text \<open>
  The serializer in the words of the specification, to compare the code with: for each
  chunk the identifier in 4 characters, the length in 4 bytes, little-endian, the
  payload, and one zero pad byte if the length is odd; the payload of a container is
  its type tag followed by its chunks. Containers have the id \<open>RIFF\<close> at the top and
  \<open>LIST\<close> below.
\<close>

fun spec_serialize :: "string \<Rightarrow> chunk \<Rightarrow> Buffer" where
  "spec_serialize list (Chunk i d) =
     pad4 i @ u32le_bytes (length d) @ d @ (if odd (length d) then [0] else [])"
| "spec_serialize list (RIFF type isList d cs) =
     (let body = pad4 type @ concat (map (spec_serialize ''LIST'') cs)
      in pad4 list @ u32le_bytes (length body) @ body @ (if odd (length body) then [0] else []))"

text \<open>
  A well-formed container, as a tree: an id has at most 4 characters, all 7-bit ASCII,
  and does not end in a space (ids are padded with spaces on the right); a leaf does not
  have the id of a container; a container has the id \<open>RIFF\<close> at the top and \<open>LIST\<close> below,
  and its data are its chunks; every length fits into 32 bits.
\<close>

definition id_ok :: "string \<Rightarrow> bool" where
  "id_ok i \<longleftrightarrow> length i \<le> 4 \<and> (\<forall>c \<in> set i. (of_char c :: nat) < 128)
              \<and> (i = [] \<or> last i \<noteq> CHR '' '')"

fun well_formed :: "string \<Rightarrow> chunk \<Rightarrow> bool" where
  "well_formed list (Chunk i d) \<longleftrightarrow>
     id_ok i \<and> i \<noteq> ''RIFF'' \<and> i \<noteq> ''LIST'' \<and> length d < 4294967296"
| "well_formed list (RIFF type isList d cs) \<longleftrightarrow>
     (list = ''RIFF'' \<or> list = ''LIST'') \<and> (isList \<longleftrightarrow> list = ''LIST'') \<and> id_ok type \<and>
     d = concat (map (spec_serialize ''LIST'') cs) \<and> 4 + length d < 4294967296 \<and>
     (\<forall>c \<in> set cs. well_formed ''LIST'' c)"

section \<open>The INFO list (YamlGen.info and YamlParse.riff_INFO)\<close>

text \<open>
  A value of \<open>INFO.yml\<close>: the version \<open>{wMajor, wMinor}\<close>, a string, or the object
  \<open>{hex: ...}\<close> that \<open>info\<close> writes for the data it does not take for a string.
\<close>

datatype info_value = Version int int | Text string | Hex string

definition hex_digit :: "nat \<Rightarrow> char" where
  "hex_digit d = ''0123456789abcdef'' ! d"

definition toString_hex :: "Buffer \<Rightarrow> string" where
  "toString_hex buf = concat (map (\<lambda>b. [hex_digit (unat b div 16), hex_digit (unat b mod 16)]) buf)"

text \<open>
  \<open>str.replace(/\0?\0$/, "")\<close>: the match is the last two characters when both are
  zero, and the last character when only it is zero.
\<close>

definition replace_final_zeros :: "string \<Rightarrow> string" where
  "replace_final_zeros s =
     (if 2 \<le> length s \<and> last s = CHR 0x00 \<and> last (butlast s) = CHR 0x00 then butlast (butlast s)
      else if s \<noteq> [] \<and> last s = CHR 0x00 then butlast s
      else s)"

text \<open>
  The body of the loop of \<open>info\<close>, for the chunk \<open>c\<close>: the value stored under \<open>c.id\<close>.
  The two reads of the version are inside its four bytes.
  \<open>Buffer.from(str, "ascii")\<close> has one byte per character, with the same code, and
  \<open>/\0$/.test(str)\<close> holds when the last character is zero.
\<close>

definition info_value_of :: "chunk \<Rightarrow> info_value" where
  "info_value_of c =
     (let d = chunk_data c; str = toString_ascii d 0 (length d) in
      if chunk_id c = ''ifil'' \<and> length d = 4
      then Version (uint (le16 (d ! 0) (d ! 1))) (uint (le16 (d ! 2) (d ! 3)))
      else if even (length d) \<and> ascii_bytes str = d \<and> str \<noteq> [] \<and> last str = CHR 0x00
      then Text (replace_final_zeros str)
      else Hex (toString_hex d))"

text \<open>
  \<open>info\<close>, given the chunks of the \<open>INFO\<close> list: the object \<open>res\<close>, as a map from the
  ids. A later chunk of the same id overwrites an earlier one.
\<close>

definition info :: "chunk list \<Rightarrow> (string \<Rightarrow> info_value option)" where
  "info chunks = fold (\<lambda>c res. res(chunk_id c \<mapsto> info_value_of c)) chunks (\<lambda>k. None)"

text \<open>
  \<open>String(v)\<close> for a value of \<open>INFO.yml\<close>: a string is itself, and an object is
  \<open>[object Object]\<close>. \<open>buf.writeUInt16LE(value, offset)\<close> throws a \<open>RangeError\<close> unless
  \<open>0 \<le> value < 2 ^ 16\<close>. \<open>Buffer.from(v, "binary")\<close>, which \<open>riffChunk\<close> applies to a
  string, has one byte per character, with the same code.
\<close>

definition String_info :: "info_value \<Rightarrow> string" where
  "String_info v = (case v of Text s \<Rightarrow> s | _ \<Rightarrow> ''[object Object]'')"

definition u16le :: "int \<Rightarrow> error + Buffer" where
  "u16le v = (if 0 \<le> v \<and> v < 65536 then Inr [of_int v, of_int (v div 256)] else Inl RangeError)"

definition binary_bytes :: "string \<Rightarrow> Buffer" where
  "binary_bytes s = map (\<lambda>c. of_nat (of_char c)) s"

text \<open>
  The body of the loop of \<open>riff_INFO\<close>, for a key \<open>k\<close> that \<open>info\<close> has, with the value
  \<open>v\<close>: the chunk pushed to \<open>res\<close>. The version is written in four bytes; when the
  value under \<open>ifil\<close> is not a version, \<open>wMajor\<close> and \<open>wMinor\<close> are \<open>undefined\<close>, which is
  written as 0. Any other value is made a string and gets one zero character when its
  length is odd, and two when it is even.
\<close>

definition INFO_chunk :: "string \<Rightarrow> info_value \<Rightarrow> error + Buffer" where
  "INFO_chunk k v =
     (if k = ''ifil'' then
        bind_err
          (case v of
             Version wMajor wMinor \<Rightarrow>
               bind_err (u16le wMajor) (\<lambda>b0. bind_err (u16le wMinor) (\<lambda>b2. Inr (b0 @ b2)))
           | _ \<Rightarrow> Inr [0, 0, 0, 0])
          (riffChunk k)
      else
        (let s = String_info v in
         riffChunk k (binary_bytes (s @ replicate (2 - length s mod 2) (CHR 0x00)))))"

fun INFO_chunks :: "string list \<Rightarrow> (string \<Rightarrow> info_value option) \<Rightarrow> error + Buffer list" where
  "INFO_chunks [] obj = Inr []"
| "INFO_chunks (k # keys) obj =
     (case obj k of
        None \<Rightarrow> INFO_chunks keys obj
      | Some v \<Rightarrow>
          bind_err (INFO_chunk k v) (\<lambda>c.
          bind_err (INFO_chunks keys obj) (\<lambda>res. Inr (c # res))))"

text \<open>
  \<open>riff_INFO\<close>, given the keys listed under \<open>INFO\<close> in \<open>RIFF.yml\<close> and the object read
  from \<open>INFO.yml\<close>: the list of buffers that the promise is fulfilled with, or the throw
  that rejects it. \<open>res\<close> is a list of buffers, which \<open>[].concat.apply([], res)\<close> in
  \<open>riffList\<close> leaves as they are, a buffer not being an array.
\<close>

definition riff_INFO :: "string list \<Rightarrow> (string \<Rightarrow> info_value option) \<Rightarrow> error + Buffer list" where
  "riff_INFO keys obj =
     bind_err (INFO_chunks keys obj) (\<lambda>res. riffList ''LIST'' ''INFO'' (map (\<lambda>b. [b]) res))"

text \<open>
  The chunks of an \<open>INFO\<close> list that \<open>info\<close> takes for the version or for a string: the
  chunk \<open>ifil\<close> with four bytes, and under any other id an even number of bytes, all
  below 128, the last of them zero.
\<close>

fun info_chunk_ok :: "chunk \<Rightarrow> bool" where
  "info_chunk_ok (Chunk i d) \<longleftrightarrow>
     (if i = ''ifil'' then length d = 4
      else d \<noteq> [] \<and> even (length d) \<and> last d = 0 \<and> (\<forall>b \<in> set d. b < 128))"
| "info_chunk_ok (RIFF type isList d cs) \<longleftrightarrow> False"


section \<open>Reading the samples and compiling (YamlParse.readWav, riff_sdta, riffDispatch, compile)\<close>

text \<open>
  \<open>readWav\<close>, given the descriptor \<open>meta\<close> of the sample and the bytes of its WAV file
  (the two files that the method reads): the callback that runs once both are read, its
  \<open>throw\<close> being a rejection of the promise that \<open>readWav\<close> returns. The digest of the \<open>crypto\<close> library is a
  parameter, \<open>sha1\<close>: the hexadecimal SHA-1 digest of a buffer. Reading a property of
  \<open>null\<close>, or calling \<open>firstForName\<close> on a \<open>Chunk\<close>, which has no such method, is a
  \<open>TypeError\<close>. The six reads of the format come before the checks. The comparison of
  \<open>fmt.toString("hex", 24, 40)\<close> with the sub-type is the comparison of the bytes.
\<close>

definition WMMEDIASUBTYPE_PCM :: Buffer where
  "WMMEDIASUBTYPE_PCM =
     [0x01, 0x00, 0x00, 0x00, 0x00, 0x00, 0x10, 0x00,
      0x80, 0x00, 0x00, 0xaa, 0x00, 0x38, 0x9b, 0x71]"

definition readWav :: "(Buffer \<Rightarrow> string) \<Rightarrow> meta \<Rightarrow> Buffer \<Rightarrow> error + entry" where
  "readWav sha1 m buf =
     bind_err (new_RIFF buf) (\<lambda>wav.
       case firstForName wav ''WAVE'' of
         Some (RIFF i l d wave) \<Rightarrow>
           (case firstForName wave ''fmt'' of
              None \<Rightarrow> Inl TypeError
            | Some f \<Rightarrow>
                (case firstForName wave ''data'' of
                   None \<Rightarrow> Inl TypeError
                 | Some dc \<Rightarrow>
                     bind_err (readUInt16LE (chunk_data f) 0) (\<lambda>formatTag.
                     bind_err (readUInt16LE (chunk_data f) 2) (\<lambda>channels.
                     bind_err (readUInt32LE (chunk_data f) 4) (\<lambda>sampleRate.
                     bind_err (readUInt32LE (chunk_data f) 8) (\<lambda>dataRate.
                     bind_err (readUInt16LE (chunk_data f) 12) (\<lambda>blockAlign.
                     bind_err (readUInt16LE (chunk_data f) 14) (\<lambda>bitsPerSample.
                       if formatTag \<noteq> 1 \<and> formatTag \<noteq> 65534
                       then Inl Only_PCM_and_EXTENSIBLE_is_supported
                       else if channels \<noteq> 1 then Inl Only_mono_samples_allowed
                       else if bitsPerSample mod 8 \<noteq> 0 then Inl We_only_deal_in_whole_mytes
                       else if blockAlign \<noteq> channels * (bitsPerSample div 8)
                       then Inl Unexpected_block_alignment
                       else if dataRate \<noteq> sampleRate * blockAlign
                       then Inl Unexpected_data_rate
                       else if bitsPerSample \<noteq> 16 \<and> bitsPerSample \<noteq> 24
                       then Inl Only_16_and_24_bit_per_sample_allowed
                       else if bitsPerSample = 24 then Inl Samples_24bit_not_supported_yet
                       else if int (meta_length m) * blockAlign \<noteq> int (length (chunk_data dc))
                       then Inl Sample_length_does_not_match_recorded_metadata
                       else if formatTag = 65534
                               \<and> buf_slice (chunk_data f) 24 (24 + 16) \<noteq> WMMEDIASUBTYPE_PCM
                       then Inl Only_PCM_subtype_is_supported
                       else if bitsPerSample = 16 \<and> sha1 (chunk_data dc) \<noteq> meta_smpl m
                       then Inl Sample_data_does_not_match_recorded_checksum
                       else Inr (SampleEntry m (chunk_data dc))))))))))
       | _ \<Rightarrow> Inl TypeError)"

text \<open>
  A promise that settles is the time at which it settles and its outcome, \<open>Inl\<close> being
  a rejection. The times of the promises that come from the file system are given with
  them.
\<close>

type_synonym 'a promise = "nat \<times> (error + 'a)"

definition rejected :: "'a promise \<Rightarrow> bool" where
  "rejected p \<longleftrightarrow> isl (snd p)"

text \<open>
  \<open>p.then(f)\<close> for a callback that returns a value or throws: the promise settles when
  \<open>p\<close> does, with the rejection of \<open>p\<close>, or with what \<open>f\<close> returns or throws.
\<close>

definition Promise_then :: "'a promise \<Rightarrow> ('a \<Rightarrow> error + 'b) \<Rightarrow> 'b promise" where
  "Promise_then p f = (fst p, bind_err (snd p) f)"

text \<open>
  \<open>Promise.all\<close> is rejected as soon as one of the promises is, with the error of that
  one: \<open>earliest\<close> is the rejection that comes first in time, and among rejections of the
  same time the first of the list (\<open>Promise.all\<close> subscribes to the promises in list
  order). When no promise is rejected, \<open>Promise.all\<close> is fulfilled with the list of the
  values when the last promise is.
\<close>

fun earliest :: "'a promise list \<Rightarrow> (nat \<times> error) option" where
  "earliest [] = None"
| "earliest (p # ps) =
     (case snd p of
        Inr x \<Rightarrow> earliest ps
      | Inl e \<Rightarrow>
          (case earliest ps of
             None \<Rightarrow> Some (fst p, e)
           | Some r \<Rightarrow> if fst p \<le> fst r then Some (fst p, e) else Some r))"

definition Promise_all :: "'a promise list \<Rightarrow> 'a list promise" where
  "Promise_all ps =
     (case earliest ps of
        Some r \<Rightarrow> (fst r, Inl (snd r))
      | None \<Rightarrow>
          (fold max (map fst ps) 0,
           Inr (concat (map (\<lambda>p. case snd p of Inr x \<Rightarrow> [x] | Inl e \<Rightarrow> []) ps))))"

text \<open>
  The callback of \<open>names.map\<close> in \<open>riff_sdta\<close>. \<open>files n\<close> is the promise that \<open>readWav\<close>
  makes of the two files of the sample \<open>n\<close>, the descriptor and the WAV file: it is
  rejected when one of them cannot be read. A name is read by \<open>readWav\<close>, and a gap
  marker is passed on as it is, in a promise that is fulfilled from the start.
\<close>

fun load ::
  "(Buffer \<Rightarrow> string) \<Rightarrow> (string \<Rightarrow> (meta \<times> Buffer) promise) \<Rightarrow> item \<Rightarrow> entry promise"
where
  "load sha1 files (Name n) = Promise_then (files n) (\<lambda>(m, buf). readWav sha1 m buf)"
| "load sha1 files (Gap g) = (0, Inr (GapEntry g))"

text \<open>
  \<open>riff_sdta\<close>, given the list \<open>names\<close> read from \<open>sdta.yml\<close>: the list of the results
  goes to \<open>sdta\<close>.
\<close>

definition riff_sdta ::
  "(Buffer \<Rightarrow> string) \<Rightarrow> (string \<Rightarrow> (meta \<times> Buffer) promise) \<Rightarrow> item list
     \<Rightarrow> (Buffer list \<times> int list) promise"
where
  "riff_sdta sha1 files names =
     Promise_then (Promise_all (map (load sha1 files) names)) YamlParse_sdta"

text \<open>
  \<open>arr.map(f)\<close> for a callback that may throw, given the outcomes of the calls in
  order: the array of the values, or the first throw, which ends the loop.
\<close>

fun map_or_throw :: "(error + 'a) list \<Rightarrow> error + 'a list" where
  "map_or_throw [] = Inr []"
| "map_or_throw (r # rs) =
     bind_err r (\<lambda>x. bind_err (map_or_throw rs) (\<lambda>xs. Inr (x # xs)))"

text \<open>
  The content of \<open>RIFF.yml\<close>: a string, or an object with one key and a list as its
  value. \<open>riffDispatch\<close> looks up the method \<open>riff_\<close> followed by the string or the key
  and returns the promise of this method. The promises of these methods are a
  parameter, \<open>handlers\<close>; calling a method that does not exist throws a \<open>TypeError\<close>.
  For a key without a method, a throw in the callback of \<open>v.map\<close> leaves \<open>riffDispatch\<close>
  before \<open>Promise.all\<close> is called. The result is the throw, or the promise returned.
\<close>

datatype yaml = YString string | YObject string "yaml list"

fun riffDispatch ::
  "(string \<Rightarrow> Buffer list promise option) \<Rightarrow> string \<Rightarrow> yaml \<Rightarrow> error + Buffer list promise"
where
  "riffDispatch handlers list (YString s) =
     (case handlers s of None \<Rightarrow> Inl TypeError | Some p \<Rightarrow> Inr p)"
| "riffDispatch handlers list (YObject k v) =
     (case handlers k of
        Some p \<Rightarrow> Inr p
      | None \<Rightarrow>
          bind_err (map_or_throw (map (riffDispatch handlers ''LIST'') v)) (\<lambda>ps.
            Inr (Promise_then (Promise_all ps) (riffList list k))))"

text \<open>
  The outcome of the promise that \<open>compile\<close> returns. \<open>riffDispatch\<close> is called in a
  callback of \<open>then\<close>, so its throw is a rejection.
\<close>

definition compile :: "(string \<Rightarrow> Buffer list promise option) \<Rightarrow> yaml \<Rightarrow> error + Buffer" where
  "compile handlers data =
     bind_err (riffDispatch handlers ''RIFF'' data) (\<lambda>p.
     bind_err (snd p) (\<lambda>parts. Inr (concat parts)))"

text \<open>
  The main driver: the file is written only when \<open>compile\<close> is fulfilled, and a rejection
  is printed by \<open>console.error\<close>. The result is the content of the output file, if one
  is written, the error printed, if any, and the exit status. (A failure of the file
  system in \<open>writeFile\<close> is not part of the model.)
\<close>

definition main ::
  "(string \<Rightarrow> Buffer list promise option) \<Rightarrow> yaml \<Rightarrow> Buffer option \<times> error option \<times> nat"
where
  "main handlers data =
     (case compile handlers data of
        Inr sf2 \<Rightarrow> (Some sf2, None, 0)
      | Inl err \<Rightarrow> (None, Some err, 1))"

text \<open>
  The methods that \<open>riffDispatch\<close> calls on the content of \<open>RIFF.yml\<close>, in order, when
  none of the calls throws.
\<close>

fun invoked :: "(string \<Rightarrow> Buffer list promise option) \<Rightarrow> yaml \<Rightarrow> string list" where
  "invoked handlers (YString s) = [s]"
| "invoked handlers (YObject k v) =
     (if handlers k \<noteq> None then [k] else concat (map (invoked handlers) v))"


section \<open>Properties of the record tables and generators\<close>

lemma bind_err_simps [simp]:
  "bind_err (Inl e) f = Inl e" "bind_err (Inr x) f = f x"
  by (simp_all add: bind_err_def)

lemma layout_len_pgen [simp]: "layout_len pgen_layout = 4"
  by (simp add: layout_len_def pgen_layout_def)

lemma parse_parts_pgen:
  assumes "pos + 4 \<le> length data"
  shows "parse_parts pgen_layout data pos =
           Inr [(''sfGenOper'', Num (uint (le16 (data ! pos) (data ! (pos + 1))))),
                (''genAmount'', Amount
                   \<lparr>ranges = Range (sint (data ! (pos + 2))) (sint (data ! (pos + 3))),
                    shAmount = sint (le16 (data ! (pos + 2)) (data ! (pos + 3))),
                    wAmount = uint (le16 (data ! (pos + 2)) (data ! (pos + 3)))\<rparr>)]"
  using assms
  by (simp add: pgen_layout_def readUInt16LE_def readInt16LE_def readInt8_def a2_def
      numeral_3_eq_3 add.commute)

text \<open>The loop of \<open>parse\<close> followed by \<open>Generator.build\<close>, from row \<open>j\<close> on.\<close>

lemma build_pgen_loop:
  "length data = 4 * n \<Longrightarrow> j \<le> n \<Longrightarrow>
   bind_err (parse_loop pgen_layout data (4 * j) i) build
     = Inr (map (gen_at data) [j ..< n])"
proof (induction "n - j" arbitrary: i j)
  case 0
  then have "4 * j = length data" by simp
  then show ?case using 0 by (simp add: parse_loop.simps)
next
  case (Suc m)
  then have j: "j < n" by simp
  then have lt: "4 * j + 4 \<le> length data" and pos: "4 * j < length data"
    using Suc.prems(1) by simp_all
  have "bind_err (parse_loop pgen_layout data (4 * Suc j) (i + 1)) build
     = Inr (map (gen_at data) [Suc j ..< n])"
    using Suc.prems Suc.hyps(2) j by (intro Suc.hyps(1)) simp_all
  then have step: "bind_err (parse_loop pgen_layout data (4 * j + 4) (Suc i)) build
     = Inr (map (gen_at data) [Suc j ..< n])"
    by (simp add: add.commute)
  have "parse_loop pgen_layout data (4 * j) i =
          bind_err (parse_loop pgen_layout data (4 * j + 4) (Suc i)) (\<lambda>res.
            Inr (((''id'', Num (int i)) #
                [(''sfGenOper'', Num (uint (le16 (data ! (4 * j)) (data ! (4 * j + 1))))),
                 (''genAmount'', Amount
                   \<lparr>ranges = Range (sint (data ! (4 * j + 2))) (sint (data ! (4 * j + 3))),
                    shAmount = sint (le16 (data ! (4 * j + 2)) (data ! (4 * j + 3))),
                    wAmount = uint (le16 (data ! (4 * j + 2)) (data ! (4 * j + 3)))\<rparr>)]) # res))"
    using pos by (subst parse_loop.simps) (simp add: parse_parts_pgen [OF lt])
  then show ?case
    using step j
    by (cases "parse_loop pgen_layout data (4 * j + 4) (Suc i)")
       (simp_all add: new_Generator_def upt_conv_Cons gen_at_def bind_err_def split: sum.splits)
qed

lemma pgen_rows:
  assumes "length data mod 4 = 0" and "data \<noteq> []"
  shows "pgen data = Inr (map (gen_at data) [0 ..< length data div 4])"
proof -
  from assms(1) have len: "length data = 4 * (length data div 4)" by presburger
  show ?thesis
    using assms build_pgen_loop [OF len, of 0 0]
    by (simp add: pgen_def parse_def)
qed

lemma gens_nth:
  assumes "length data mod 4 = 0" and "data \<noteq> []"
  shows "\<exists>gs. pgen data = Inr gs \<and> length gs = length data div 4 \<and>
           (\<forall>k < length gs. gs ! k = gen_at data k)"
  using pgen_rows [OF assms] by simp

lemma String_nat_61: "String_nat 61 = ''61''"
  by (simp add: String_nat.simps digit_char_def)

lemma length_Generator_names: "length Generator_names = 61"
  by (simp add: Generator_names_def)

lemma sint_byte_range: "- 128 \<le> sint b \<and> sint b \<le> 127" for b :: byte
  using sint_ge [of b] sint_lt [of b] by simp

text \<open>
  Claim C10. A generator row whose operator code is outside the table of the 61 names
  decodes all the same: every generator table of a positive multiple of 4 bytes decodes,
  and a row with an operator code of 61 or more gets the decimal digits of the code as
  its name, the kind \<open>Value\<close>, and the amount read as a signed 16-bit integer.
\<close>

theorem unknown_operator_decodes:
  assumes "length data mod 4 = 0" and "data \<noteq> []"
  shows "\<exists>gs. pgen data = Inr gs \<and> length gs = length data div 4 \<and>
           (\<forall>k < length gs.
              sfGenOper (gs ! k) = uint (le16 (data ! (4 * k)) (data ! (4 * k + 1))) \<and>
              (61 \<le> sfGenOper (gs ! k) \<longrightarrow>
                 name (gs ! k) = String_nat (nat (sfGenOper (gs ! k))) \<and>
                 kind (gs ! k) = Value \<and>
                 value (gs ! k) = NumV (sint (le16 (data ! (4 * k + 2)) (data ! (4 * k + 3))))))"
proof -
  have "61 \<le> sfGenOper g \<Longrightarrow> name g = String_nat (nat (sfGenOper g)) \<and> kind g = Value
          \<and> value g = NumV (shAmount (genAmount g))" for g
    by (auto simp: name_def kind_def value_def length_Generator_names Let_def)
  then show ?thesis
    using gens_nth [OF assms] by (auto simp: gen_at_def)
qed

theorem unknown_operator_decodes_witness:
  "length [61, 0, 16, 255 :: byte] mod 4 = 0 \<and> [61, 0, 16, 255 :: byte] \<noteq> [] \<and>
   (\<exists>g. pgen [61, 0, 16, 255] = Inr [g] \<and> sfGenOper g = 61 \<and> name g = ''61'' \<and>
        kind g = Value \<and> value g = NumV (- 240))"
  using unknown_operator_decodes [of "[61, 0, 16, 255]"]
  by (auto simp: length_Suc_conv le16_def word_cat_eq String_nat_61)

text \<open>
  Claim C4, as amended. The decoder \<open>a2\<close> reads the two bytes of a range with
  \<open>readInt8\<close>, so for a generator with operator code 43 or 44 the decoded value is a
  pair \<open>(low, high)\<close> of signed bytes: both lie between -128 and 127, not between 0 and
  255. The pair still determines the two bytes, and writing each back as one byte
  reproduces them.
\<close>

theorem range_generator_signed:
  assumes "length data mod 4 = 0" and "data \<noteq> []"
  shows "\<exists>gs. pgen data = Inr gs \<and> length gs = length data div 4 \<and>
           (\<forall>k < length gs.
              sfGenOper (gs ! k) = uint (le16 (data ! (4 * k)) (data ! (4 * k + 1))) \<and>
              (sfGenOper (gs ! k) = 43 \<or> sfGenOper (gs ! k) = 44 \<longrightarrow>
                (\<exists>lo hi. value (gs ! k) = RangeV (Range lo hi) \<and>
                   lo = sint (data ! (4 * k + 2)) \<and> hi = sint (data ! (4 * k + 3)) \<and>
                   - 128 \<le> lo \<and> lo \<le> 127 \<and> - 128 \<le> hi \<and> hi \<le> 127 \<and>
                   write_ranges (Range lo hi) = [data ! (4 * k + 2), data ! (4 * k + 3)])))"
proof -
  have k: "sfGenOper g = 43 \<or> sfGenOper g = 44 \<Longrightarrow> value g = RangeV (ranges (genAmount g))"
    for g
    by (auto simp: kind_def value_def Let_def)
  show ?thesis
    using gens_nth [OF assms] k sint_byte_range by (auto simp: gen_at_def write_ranges_def)
qed

theorem range_generator_signed_witness:
  "length [43, 0, 255, 16 :: byte] mod 4 = 0 \<and> [43, 0, 255, 16 :: byte] \<noteq> [] \<and>
   (\<exists>g. pgen [43, 0, 255, 16] = Inr [g] \<and> sfGenOper g = 43 \<and>
        value g = RangeV (Range (- 1) 16) \<and> write_ranges (Range (- 1) 16) = [255, 16])"
  using range_generator_signed [of "[43, 0, 255, 16]"]
  by (auto simp: length_Suc_conv le16_def word_cat_eq)

text \<open>
  The claim as stated fails on the row \<open>2B 00 FF 10\<close> (operator 43, \<open>keyRange\<close>): the
  decoded low end is -1, which is not between 0 and 255.
\<close>

theorem range_generator_negative_low:
  "pgen [43, 0, 255, 16] =
     Inr [\<lparr>sfGenOper = 43,
           genAmount = \<lparr>ranges = Range (- 1) 16, shAmount = 4351, wAmount = 4351\<rparr>\<rparr>] \<and>
   value \<lparr>sfGenOper = 43,
          genAmount = \<lparr>ranges = Range (- 1) 16, shAmount = 4351, wAmount = 4351\<rparr>\<rparr>
     = RangeV (Range (- 1) 16) \<and>
   \<not> 0 \<le> byLo (Range (- 1) 16)"
  using pgen_rows [of "[43, 0, 255, 16]"]
  by (simp add: gen_at_def le16_def word_cat_eq value_def kind_def)

lemma replace_trailing_decomp:
  "s = replace_trailing c s @ replicate (length s - length (replace_trailing c s)) c"
proof -
  let ?P = "\<lambda>x. x = c"
  let ?t = "takeWhile ?P (rev s)" and ?d = "dropWhile ?P (rev s)"
  have t: "?t = replicate (length ?t) c"
    by (metis (mono_tags, lifting) replicate_length_same set_takeWhileD)
  have "rev s = ?t @ ?d" by simp
  then have "s = rev ?d @ rev ?t" by (metis rev_append rev_rev_ident)
  moreover have "rev ?t = replicate (length ?t) c" using t by (metis rev_replicate)
  moreover have "length ?t = length s - length (rev ?d)"
    by (metis add_diff_cancel_right' length_append length_rev takeWhile_dropWhile_id)
  ultimately show ?thesis by (simp add: replace_trailing_def)
qed

lemma replace_trailing_last:
  "replace_trailing c s \<noteq> [] \<Longrightarrow> last (replace_trailing c s) \<noteq> c"
  unfolding replace_trailing_def
  by (metis (mono_tags, lifting) hd_dropWhile last_rev rev_is_Nil_conv)

lemma byte_of_unat_mod: "(of_nat (unat b mod 256) :: byte) = b"
  using unsigned_less [of b, where 'a = nat] by simp

lemma byte_of_char_of_byte: "(of_nat (of_char (char_of (unat b))) :: byte) = b"
  by (simp add: byte_of_unat_mod)

text \<open>
  Claim C9, as amended. The decoder \<open>z20\<close> removes the zero bytes that end the field
  and nothing else: the 20 bytes of the field are the bytes of the decoded string
  followed by zero bytes only, and the decoded string does not end in a zero character.
  A zero byte inside the field, and what follows it, is kept. Padding the decoded string
  with zero bytes to 20 bytes gives the field back.
\<close>

theorem z20_strips_trailing_zeros:
  assumes "pos + 20 \<le> length buf"
  shows "length (z20 buf pos) \<le> 20 \<and>
         buf_slice buf pos (pos + 20)
           = map (\<lambda>c. of_nat (of_char c)) (z20 buf pos)
               @ replicate (20 - length (z20 buf pos)) 0 \<and>
         (z20 buf pos \<noteq> [] \<longrightarrow> last (z20 buf pos) \<noteq> CHR 0x00) \<and>
         write_z20 (z20 buf pos) = buf_slice buf pos (pos + 20)"
proof -
  let ?s = "toString_binary buf pos (pos + 20)"
  have len: "length ?s = 20"
    using assms by (simp add: toString_binary_def buf_slice_def)
  have z: "z20 buf pos = replace_trailing (CHR 0x00) ?s"
    by (simp add: z20_def)
  have le: "length (z20 buf pos) \<le> 20"
    using len by (simp add: z replace_trailing_def) (metis length_dropWhile_le length_rev)
  have dec: "?s = z20 buf pos @ replicate (20 - length (z20 buf pos)) (CHR 0x00)"
    using replace_trailing_decomp [of ?s "CHR 0x00"] len by (simp add: z)
  have bytes: "map (\<lambda>c. of_nat (of_char c) :: byte) ?s = buf_slice buf pos (pos + 20)"
    by (simp add: toString_binary_def byte_of_unat_mod o_def)
  have "map (\<lambda>c. of_nat (of_char c) :: byte) ?s
          = map (\<lambda>c. of_nat (of_char c)) (z20 buf pos)
              @ replicate (20 - length (z20 buf pos)) 0"
    by (subst dec) simp
  with bytes have field: "buf_slice buf pos (pos + 20)
          = map (\<lambda>c. of_nat (of_char c)) (z20 buf pos)
              @ replicate (20 - length (z20 buf pos)) 0"
    by simp
  show ?thesis
    using le field replace_trailing_last [of "CHR 0x00" ?s]
    by (simp add: z write_z20_def)
qed

lemma z20_example:
  "z20 [97, 0, 98, 0, 0, 0, 0, 0, 0, 0, 0, 0, 0, 0, 0, 0, 0, 0, 0, 0] 0
     = [CHR ''a'', CHR 0x00, CHR ''b'']"
  by (simp add: z20_def toString_binary_def buf_slice_def replace_trailing_def
      char_of_def bit_Suc_0_iff)

theorem z20_strips_trailing_zeros_witness:
  "0 + 20 \<le> length [97, 0, 98, 0, 0, 0, 0, 0, 0, 0, 0, 0, 0, 0, 0, 0, 0, 0, 0, 0 :: byte] \<and>
   write_z20 [CHR ''a'', CHR 0x00, CHR ''b'']
     = [97, 0, 98, 0, 0, 0, 0, 0, 0, 0, 0, 0, 0, 0, 0, 0, 0, 0, 0, 0]"
  using z20_strips_trailing_zeros
          [of 0 "[97, 0, 98, 0, 0, 0, 0, 0, 0, 0, 0, 0, 0, 0, 0, 0, 0, 0, 0, 0]"]
  by (simp add: z20_example buf_slice_def)

text \<open>
  The claim as stated fails on the field \<open>61 00 62 00 \<dots> 00\<close>: truncating at the first
  zero byte would give \<open>a\<close>, the decoder gives the three characters \<open>a\<close>, zero, \<open>b\<close>.
\<close>

theorem z20_keeps_inner_zero:
  "z20 [97, 0, 98, 0, 0, 0, 0, 0, 0, 0, 0, 0, 0, 0, 0, 0, 0, 0, 0, 0] 0
     = [CHR ''a'', CHR 0x00, CHR ''b''] \<and>
   z20 [97, 0, 98, 0, 0, 0, 0, 0, 0, 0, 0, 0, 0, 0, 0, 0, 0, 0, 0, 0] 0 \<noteq> ''a''"
  by (simp add: z20_example)


section \<open>Properties of the zones\<close>

lemma fold_upd_None:
  "fold (\<lambda>g res. res(name g \<mapsto> GenValue (value g))) gs m n = None
     \<longleftrightarrow> m n = None \<and> (\<forall>g \<in> set gs. name g \<noteq> n)"
  by (induction gs arbitrary: m) auto

lemma fold_upd_Some:
  "fold (\<lambda>g res. res(name g \<mapsto> GenValue (value g))) gs m n = Some v \<Longrightarrow>
     m n = Some v \<or> (\<exists>g \<in> set gs. name g = n \<and> v = GenValue (value g))"
  by (induction gs arbitrary: v rule: rev_induct) (auto split: if_splits)

lemma zone_object_None:
  assumes "local \<noteq> ''gens''" and "local \<noteq> ''mods''"
  shows "zone_object z local = None \<longleftrightarrow> (\<forall>g \<in> set (gens z). name g \<noteq> local)"
  using assms by (simp add: zone_object_def fold_upd_None)

lemma zone_object_Some:
  assumes "local \<noteq> ''gens''" and "local \<noteq> ''mods''" and "zone_object z local = Some v"
  shows "\<exists>g \<in> set (gens z). name g = local \<and> v = GenValue (value g)"
  using assms
    fold_upd_Some [of "gens z" "[''gens'' \<mapsto> Gens (gens z), ''mods'' \<mapsto> Mods (mods z)]" local v]
  by (auto simp: zone_object_def split: if_splits)

lemma distinct_Generator_names: "distinct Generator_names"
  by (simp add: Generator_names_def)

lemma digit_char_digit: "d < 10 \<Longrightarrow> digit_char d \<in> set ''0123456789''"
  unfolding digit_char_def by (rule nth_mem) simp

lemma String_nat_digits: "set (String_nat n) \<subseteq> set ''0123456789''"
proof (induction n rule: String_nat.induct)
  case (1 n)
  show ?case
  proof (cases "n < 10")
    case True
    then show ?thesis using digit_char_digit [of n] by (subst String_nat.simps) simp
  next
    case False
    have "n mod 10 < 10" by simp
    then show ?thesis
      using False 1 digit_char_digit [of "n mod 10"] by (subst String_nat.simps) simp
  qed
qed

lemma String_nat_not_name:
  "String_nat n \<noteq> ''instrument''" "String_nat n \<noteq> ''sampleID''"
  using String_nat_digits [of n] by auto

lemma name_instrument: "name g = ''instrument'' \<longleftrightarrow> nat (sfGenOper g) = 41"
proof -
  have n41: "Generator_names ! 41 = ''instrument''"
    by (simp add: Generator_names_def)
  show ?thesis
  proof (cases "nat (sfGenOper g) < 61")
    case True
    then have "Generator_names ! nat (sfGenOper g) = Generator_names ! 41
                 \<longleftrightarrow> nat (sfGenOper g) = 41"
      using distinct_Generator_names
      by (simp add: nth_eq_iff_index_eq length_Generator_names)
    moreover have "[] \<notin> set Generator_names"
      by (simp add: Generator_names_def)
    then have "Generator_names ! nat (sfGenOper g) \<noteq> []"
      using True nth_mem [of "nat (sfGenOper g)" Generator_names]
      by (metis length_Generator_names)
    ultimately show ?thesis
      using True n41 by (auto simp: name_def Let_def length_Generator_names String_nat_not_name)
  next
    case False
    then show ?thesis
      by (auto simp: name_def Let_def length_Generator_names String_nat_not_name)
  qed
qed


lemma name_sampleID: "name g = ''sampleID'' \<longleftrightarrow> nat (sfGenOper g) = 53"
proof -
  have n53: "Generator_names ! 53 = ''sampleID''"
    by (simp add: Generator_names_def)
  show ?thesis
  proof (cases "nat (sfGenOper g) < 61")
    case True
    then have "Generator_names ! nat (sfGenOper g) = Generator_names ! 53
                 \<longleftrightarrow> nat (sfGenOper g) = 53"
      using distinct_Generator_names
      by (simp add: nth_eq_iff_index_eq length_Generator_names)
    moreover have "[] \<notin> set Generator_names"
      by (simp add: Generator_names_def)
    then have "Generator_names ! nat (sfGenOper g) \<noteq> []"
      using True nth_mem [of "nat (sfGenOper g)" Generator_names]
      by (metis length_Generator_names)
    ultimately show ?thesis
      using True n53 by (auto simp: name_def Let_def length_Generator_names String_nat_not_name)
  next
    case False
    then show ?thesis
      by (auto simp: name_def Let_def length_Generator_names String_nat_not_name)
  qed
qed

lemma value_of_reference:
  assumes "name g = ''instrument'' \<or> name g = ''sampleID''"
  shows "value g = NumV (wAmount (genAmount g))"
proof -
  from assms have "nat (sfGenOper g) = 41 \<or> nat (sfGenOper g) = 53"
    by (simp add: name_instrument name_sampleID)
  then have "sfGenOper g = 41 \<or> sfGenOper g = 53" by linarith
  then show ?thesis by (auto simp: value_def kind_def)
qed

lemma zone_object_reference:
  assumes "local = ''instrument'' \<or> local = ''sampleID''"
    and "zone_object z local = Some v"
  shows "\<exists>g \<in> set (gens z). name g = local \<and> v = GenValue (NumV (wAmount (genAmount g)))"
proof -
  from assms(1) have "local \<noteq> ''gens''" "local \<noteq> ''mods''" by auto
  from zone_object_Some [OF this assms(2)]
  obtain g where "g \<in> set (gens z)" "name g = local" "v = GenValue (value g)" by blast
  then show ?thesis using assms(1) value_of_reference [of g] by auto
qed

lemma link_zones_Inr:
  "link_zones zs local link = Inr rs \<Longrightarrow>
     length rs = length zs \<and>
     (\<forall>i < length zs. \<exists>v dst. (zs ! i) local = Some v \<and> link_at link v = Some dst \<and>
                         rs ! i = (zs ! i)(local \<mapsto> Linked dst))"
proof (induction zs arbitrary: rs)
  case Nil
  then show ?case by simp
next
  case (Cons z zs)
  from Cons.prems obtain v dst rs' where
    v: "z local = Some v" and dst: "link_at link v = Some dst"
    and rest: "link_zones zs local link = Inr rs'" and rs: "rs = z(local \<mapsto> Linked dst) # rs'"
    by (auto simp: bind_err_def split: option.splits sum.splits)
  from Cons.IH [OF rest] v dst rs show ?case
    by (auto simp: nth_Cons split: nat.splits)
qed

lemma link_zones_Inl:
  "link_zones zs local link = Inl e \<longleftrightarrow>
     (\<exists>pre z post. zs = pre @ z # post \<and>
        (\<forall>y \<in> set pre. \<exists>v. y local = Some v \<and> link_at link v \<noteq> None) \<and>
        (z local = None \<and> e = Unexpected_global_zone \<or>
         (\<exists>v. z local = Some v \<and> link_at link v = None \<and> e = Failed_to_link)))"
  (is "?L zs \<longleftrightarrow> ?R zs")
proof (induction zs)
  case Nil
  then show ?case by simp
next
  case (Cons a zs)
  show ?case
  proof (cases "a local")
    case None
    then have "?L (a # zs) \<longleftrightarrow> e = Unexpected_global_zone" by auto
    moreover have "?R (a # zs) \<longleftrightarrow> e = Unexpected_global_zone"
    proof
      assume "?R (a # zs)"
      then obtain pre z post where d: "a # zs = pre @ z # post"
        and pre: "\<forall>y \<in> set pre. \<exists>v. y local = Some v \<and> link_at link v \<noteq> None"
        and z: "z local = None \<and> e = Unexpected_global_zone \<or>
         (\<exists>v. z local = Some v \<and> link_at link v = None \<and> e = Failed_to_link)" by blast
      show "e = Unexpected_global_zone"
      proof (cases pre)
        case Nil
        with d z None show ?thesis by auto
      next
        case (Cons p ps)
        with d pre None show ?thesis by auto
      qed
    next
      assume "e = Unexpected_global_zone"
      then have "a # zs = [] @ a # zs \<and> (\<forall>y \<in> set []. \<exists>v. y local = Some v \<and> link_at link v \<noteq> None)
          \<and> (a local = None \<and> e = Unexpected_global_zone \<or>
         (\<exists>v. a local = Some v \<and> link_at link v = None \<and> e = Failed_to_link))"
        using None by simp
      then show "?R (a # zs)" by blast
    qed
    ultimately show ?thesis by simp
  next
    case (Some v)
    show ?thesis
    proof (cases "link_at link v")
      case None
      then have "?L (a # zs) \<longleftrightarrow> e = Failed_to_link" using Some by auto
      moreover have "?R (a # zs) \<longleftrightarrow> e = Failed_to_link"
      proof
        assume "?R (a # zs)"
        then obtain pre z post where d: "a # zs = pre @ z # post"
          and pre: "\<forall>y \<in> set pre. \<exists>v. y local = Some v \<and> link_at link v \<noteq> None"
          and z: "z local = None \<and> e = Unexpected_global_zone \<or>
           (\<exists>v. z local = Some v \<and> link_at link v = None \<and> e = Failed_to_link)" by blast
        show "e = Failed_to_link"
        proof (cases pre)
          case Nil
          with d z Some show ?thesis by auto
        next
          case (Cons p ps)
          with d pre Some None show ?thesis by auto
        qed
      next
        assume "e = Failed_to_link"
        then have "a # zs = [] @ a # zs \<and> (\<forall>y \<in> set []. \<exists>v. y local = Some v \<and> link_at link v \<noteq> None)
            \<and> (a local = None \<and> e = Unexpected_global_zone \<or>
           (\<exists>v. a local = Some v \<and> link_at link v = None \<and> e = Failed_to_link))"
          using Some None by simp
        then show "?R (a # zs)" by blast
      qed
      ultimately show ?thesis by simp
    next
      case (Some dst)
      have ok: "\<exists>v. a local = Some v \<and> link_at link v \<noteq> None"
        using \<open>a local = Some v\<close> Some by simp
      have "?L (a # zs) \<longleftrightarrow> ?L zs"
        using \<open>a local = Some v\<close> Some by (auto simp: bind_err_def split: sum.splits)
      moreover have "?R (a # zs) \<longleftrightarrow> ?R zs"
      proof
        assume "?R (a # zs)"
        then obtain pre z post where d: "a # zs = pre @ z # post"
          and pre: "\<forall>y \<in> set pre. \<exists>v. y local = Some v \<and> link_at link v \<noteq> None"
          and z: "z local = None \<and> e = Unexpected_global_zone \<or>
           (\<exists>v. z local = Some v \<and> link_at link v = None \<and> e = Failed_to_link)" by blast
        show "?R zs"
        proof (cases pre)
          case Nil
          with d z ok show ?thesis by auto
        next
          case (Cons p ps)
          with d have "zs = ps @ z # post" by simp
          moreover from pre Cons
          have "\<forall>y \<in> set ps. \<exists>v. y local = Some v \<and> link_at link v \<noteq> None" by simp
          ultimately show ?thesis using z by blast
        qed
      next
        assume "?R zs"
        then obtain pre z post where d: "zs = pre @ z # post"
          and pre: "\<forall>y \<in> set pre. \<exists>v. y local = Some v \<and> link_at link v \<noteq> None"
          and z: "z local = None \<and> e = Unexpected_global_zone \<or>
           (\<exists>v. z local = Some v \<and> link_at link v = None \<and> e = Failed_to_link)" by blast
        have "a # zs = (a # pre) @ z # post" using d by simp
        moreover have "\<forall>y \<in> set (a # pre). \<exists>v. y local = Some v \<and> link_at link v \<noteq> None"
          using pre ok by simp
        ultimately show "?R (a # zs)" using z by blast
      qed
      ultimately show ?thesis using Cons.IH by simp
    qed
  qed
qed


lemma link_zones_map_Inl:
  assumes f: "\<And>z. f z local = h z"
  shows "link_zones (map f lz) local link = Inl e \<longleftrightarrow>
     (\<exists>pre z post. lz = pre @ z # post \<and>
        (\<forall>y \<in> set pre. \<exists>v. h y = Some v \<and> link_at link v \<noteq> None) \<and>
        (h z = None \<and> e = Unexpected_global_zone \<or>
         (\<exists>v. h z = Some v \<and> link_at link v = None \<and> e = Failed_to_link)))"
  (is "?L \<longleftrightarrow> ?R")
proof
  assume ?L
  then obtain pre' z' post' where d: "map f lz = pre' @ z' # post'"
    and pre: "\<forall>y \<in> set pre'. \<exists>v. y local = Some v \<and> link_at link v \<noteq> None"
    and z: "z' local = None \<and> e = Unexpected_global_zone \<or>
         (\<exists>v. z' local = Some v \<and> link_at link v = None \<and> e = Failed_to_link)"
    unfolding link_zones_Inl by blast
  from d obtain pre z post where lz: "lz = pre @ z # post" and p: "pre' = map f pre"
    and zz: "z' = f z"
    by (auto simp: map_eq_append_conv map_eq_Cons_conv)
  from pre p have "\<forall>y \<in> set pre. \<exists>v. h y = Some v \<and> link_at link v \<noteq> None"
    by (simp add: f)
  moreover from z zz have "h z = None \<and> e = Unexpected_global_zone \<or>
         (\<exists>v. h z = Some v \<and> link_at link v = None \<and> e = Failed_to_link)"
    by (simp add: f)
  ultimately show ?R using lz by blast
next
  assume ?R
  then obtain pre z post where lz: "lz = pre @ z # post"
    and pre: "\<forall>y \<in> set pre. \<exists>v. h y = Some v \<and> link_at link v \<noteq> None"
    and z: "h z = None \<and> e = Unexpected_global_zone \<or>
         (\<exists>v. h z = Some v \<and> link_at link v = None \<and> e = Failed_to_link)" by blast
  have "map f lz = map f pre @ f z # map f post" using lz by simp
  moreover have "\<forall>y \<in> set (map f pre). \<exists>v. y local = Some v \<and> link_at link v \<noteq> None"
    using pre by (simp add: f)
  moreover have "f z local = None \<and> e = Unexpected_global_zone \<or>
         (\<exists>v. f z local = Some v \<and> link_at link v = None \<and> e = Failed_to_link)"
    using z by (simp add: f)
  ultimately show ?L unfolding link_zones_Inl by blast
qed

lemma inherit_local: "glob local = None \<Longrightarrow> inherit glob z local = z local"
  by (simp add: inherit_def split: option.splits)

lemma localZones_unfold:
  fixes link :: "'l list"
  assumes "zones \<noteq> []"
  shows "localZones zones local link =
     (if zone_object (hd zones) local = (None :: 'l pval option)
      then link_zones (map (\<lambda>z. inherit (zone_object (hd zones)) (zone_object z)) (tl zones))
             local link
      else link_zones (map zone_object zones) local link)"
  using assms
  by (cases zones) (simp_all add: localZones_def shift_global_def o_def)

text \<open>
  Claim C3, as amended. \<open>_localZones\<close> checks the local zones one after the other and
  throws at the first that offends, so the error is decided by the first offending local
  zone in list order: \<open>Unexpected global zone\<close> when that zone has no generator named
  \<open>local\<close>, \<open>Failed to link\<close> when the index under \<open>local\<close> (the unsigned amount of a
  generator of that name) has no entry in the table linked to. The local zones are all
  zones but a first one without a generator named \<open>local\<close>. Decoding fails exactly when
  there is an offending local zone.
\<close>

theorem local_zone_errors:
  fixes link :: "'l list"
  assumes "zones \<noteq> []" and "local = ''instrument'' \<or> local = ''sampleID''"
  shows "(localZones zones local link = Inl e \<longleftrightarrow>
     (\<exists>pre z post.
        (if \<forall>g \<in> set (gens (hd zones)). name g \<noteq> local then tl zones else zones)
          = pre @ z # post \<and>
        (\<forall>y \<in> set pre. \<exists>g \<in> set (gens y). name g = local \<and> 
            (zone_object y :: 'l zone) local = Some (GenValue (NumV (wAmount (genAmount g)))) \<and>
            0 \<le> wAmount (genAmount g) \<and> nat (wAmount (genAmount g)) < length link) \<and>
        ((\<forall>g \<in> set (gens z). name g \<noteq> local) \<and> e = Unexpected_global_zone \<or>
         (\<exists>g \<in> set (gens z). name g = local \<and>
            (zone_object z :: 'l zone) local = Some (GenValue (NumV (wAmount (genAmount g)))) \<and>
            \<not> (0 \<le> wAmount (genAmount g) \<and> nat (wAmount (genAmount g)) < length link) \<and>
            e = Failed_to_link))))"
proof -
  from assms(2) have ne: "local \<noteq> ''gens''" "local \<noteq> ''mods''" by auto
  let ?h = "\<lambda>z. (zone_object z :: 'l zone) local"
  have none: "?h z = None \<longleftrightarrow> (\<forall>g \<in> set (gens z). name g \<noteq> local)" for z
    by (rule zone_object_None [OF ne])
  have ok: "(\<exists>v. ?h y = Some v \<and> link_at link v \<noteq> None) \<longleftrightarrow>
            (\<exists>g \<in> set (gens y). name g = local \<and>
               ?h y = Some (GenValue (NumV (wAmount (genAmount g)))) \<and>
               0 \<le> wAmount (genAmount g) \<and> nat (wAmount (genAmount g)) < length link)" for y
    using zone_object_reference [OF assms(2), of y]
    by (fastforce simp: link_at_def split: if_splits)
  have bad: "(\<exists>v. ?h z = Some v \<and> link_at link v = None \<and> e = Failed_to_link) \<longleftrightarrow>
            (\<exists>g \<in> set (gens z). name g = local \<and>
               ?h z = Some (GenValue (NumV (wAmount (genAmount g)))) \<and>
               \<not> (0 \<le> wAmount (genAmount g) \<and> nat (wAmount (genAmount g)) < length link) \<and>
               e = Failed_to_link)" for z
    using zone_object_reference [OF assms(2), of z]
    by (fastforce simp: link_at_def split: if_splits)
  let ?lz = "if ?h (hd zones) = None then tl zones else zones"
  have main: "localZones zones local link = Inl e \<longleftrightarrow>
     (\<exists>pre z post. ?lz = pre @ z # post \<and>
        (\<forall>y \<in> set pre. \<exists>v. ?h y = Some v \<and> link_at link v \<noteq> None) \<and>
        (?h z = None \<and> e = Unexpected_global_zone \<or>
         (\<exists>v. ?h z = Some v \<and> link_at link v = None \<and> e = Failed_to_link)))"
  proof (cases "?h (hd zones) = None")
    case True
    have "localZones zones local link
            = link_zones (map (\<lambda>z. inherit (zone_object (hd zones)) (zone_object z)) (tl zones))
                local link"
      using True by (simp add: localZones_unfold [OF assms(1)])
    moreover have "\<And>z. inherit (zone_object (hd zones)) (zone_object z) local = ?h z"
      using True by (simp add: inherit_local)
    ultimately show ?thesis
      using True link_zones_map_Inl [of "\<lambda>z. inherit (zone_object (hd zones)) (zone_object z)" local ?h "tl zones" link e]
      by simp
  next
    case False
    have "localZones zones local link = link_zones (map zone_object zones) local link"
      using False by (auto simp: localZones_unfold [OF assms(1)])
    then show ?thesis
      using False link_zones_map_Inl [of zone_object local ?h zones link e]
      by auto
  qed
  show ?thesis
    using main by (simp only: ok bad none)
qed


lemma preset_guarded_global:
  assumes "zones \<noteq> []"
  shows "fst (preset_guarded instruments zones) \<noteq> None \<longleftrightarrow>
           gens (hd zones) \<noteq> [] \<and>
           \<not> (name (last (gens (hd zones))) = ''instrument'' \<and>
              truthy (names_at instruments
                        (YNum (wAmount (genAmount (last (gens (hd zones))))))))"
proof (cases "gens (hd zones) = []")
  case True
  then show ?thesis
    using assms by (cases zones) (simp_all add: preset_guarded_def yaml_zone_def Let_def)
next
  case False
  let ?g = "last (gens (hd zones))"
  have "get_prop (last (map (yaml_gen instruments ''instrument'') (gens (hd zones)))) ''instrument''
          = (if name ?g = ''instrument''
             then names_at instruments (YNum (wAmount (genAmount ?g))) else YUndefined)"
    using False value_of_reference [of ?g]
    by (simp add: last_map get_prop_def yaml_gen_def Let_def)
  then show ?thesis
    using assms False
    by (cases zones) (auto simp: preset_guarded_def yaml_zone_def Let_def truthy_def)
qed

text \<open>
  What \<open>_localZones\<close> does with the first zone: it takes it for the global zone exactly
  when none of its generators, at any position, is named \<open>local\<close>. When it does, every
  zone after it inherits each property of the global zone that it lacks, and keeps its
  own; the zones returned are the zones after the first. When it does not, all zones are
  returned with their own properties.
\<close>

lemma localZones_inheritance:
  fixes link :: "'l list"
  assumes "zones \<noteq> []" and "local = ''instrument'' \<or> local = ''sampleID''"
  shows
   "(fst (shift_global (map zone_object zones :: 'l zone list) local) \<noteq> None
        \<longleftrightarrow> (\<forall>g \<in> set (gens (hd zones)). name g \<noteq> local)) \<and>
    ((\<forall>g \<in> set (gens (hd zones)). name g \<noteq> local) \<longrightarrow>
       fst (shift_global (map zone_object zones :: 'l zone list) local)
         = Some (zone_object (hd zones)) \<and>
       (\<forall>rs. localZones zones local link = Inr rs \<longrightarrow>
          length rs = length zones - 1 \<and>
          (\<forall>i < length rs. \<forall>n. n \<noteq> local \<longrightarrow>
              (rs ! i) n = (case zone_object (zones ! Suc i) n of
                            None \<Rightarrow> zone_object (hd zones) n
                          | Some v \<Rightarrow> Some v)))) \<and>
    (\<not> (\<forall>g \<in> set (gens (hd zones)). name g \<noteq> local) \<longrightarrow>
       (\<forall>rs. localZones zones local link = Inr rs \<longrightarrow>
          length rs = length zones \<and>
          (\<forall>i < length rs. \<forall>n. n \<noteq> local \<longrightarrow> (rs ! i) n = zone_object (zones ! i) n)))"
proof -
  from assms(2) have ne: "local \<noteq> ''gens''" "local \<noteq> ''mods''" by auto
  let ?zs = "map zone_object zones :: 'l zone list"
  let ?G = "\<forall>g \<in> set (gens (hd zones)). name g \<noteq> local"
  have hd: "hd ?zs = zone_object (hd zones)"
    using assms(1) by (simp add: hd_map)
  have none: "(zone_object (hd zones) :: 'l zone) local = None \<longleftrightarrow> ?G"
    by (rule zone_object_None [OF ne])
  have a: "fst (shift_global ?zs local) \<noteq> None \<longleftrightarrow> ?G"
    using none hd by (simp add: shift_global_def)
  have b: "fst (shift_global ?zs local) = Some (zone_object (hd zones))" if ?G
    using that none hd by (simp add: shift_global_def)
  have c: "length rs = length zones - 1 \<and>
          (\<forall>i < length rs. \<forall>n. n \<noteq> local \<longrightarrow>
              (rs ! i) n = (case zone_object (zones ! Suc i) n of
                            None \<Rightarrow> zone_object (hd zones) n
                          | Some v \<Rightarrow> Some v))"
    if g: ?G and rs: "localZones zones local link = Inr rs" for rs
  proof -
    let ?ls = "map (\<lambda>z. inherit (zone_object (hd zones)) (zone_object z)) (tl zones)"
    have "link_zones ?ls local link = Inr rs"
      using g rs none by (simp add: localZones_unfold [OF assms(1)])
    from link_zones_Inr [OF this]
    have len: "length rs = length (tl zones)"
      and nth: "\<forall>i < length (tl zones). \<exists>v dst. rs ! i = (?ls ! i)(local \<mapsto> Linked dst)"
      by auto
    have "(rs ! i) n = (case zone_object (zones ! Suc i) n of
                            None \<Rightarrow> zone_object (hd zones) n
                          | Some v \<Rightarrow> Some v)"
      if i: "i < length rs" and n: "n \<noteq> local" for i n
    proof -
      from nth i len obtain dst where "rs ! i = (?ls ! i)(local \<mapsto> Linked dst)" by auto
      then have "(rs ! i) n = (?ls ! i) n" using n by simp
      also have "?ls ! i = inherit (zone_object (hd zones)) (zone_object (tl zones ! i))"
        using i len by simp
      also have "tl zones ! i = zones ! Suc i"
        using i len by (simp add: nth_tl)
      finally show ?thesis by (simp add: inherit_def)
    qed
    then show ?thesis using len by simp
  qed
  have d: "length rs = length zones \<and>
          (\<forall>i < length rs. \<forall>n. n \<noteq> local \<longrightarrow> (rs ! i) n = zone_object (zones ! i) n)"
    if g: "\<not> ?G" and rs: "localZones zones local link = Inr rs" for rs
  proof -
    have nn: "(zone_object (hd zones) :: 'l zone) local \<noteq> None"
      using g none by simp
    have "localZones zones local link = link_zones ?zs local link"
      by (simp add: localZones_unfold [OF assms(1)] nn)
    then have "link_zones ?zs local link = Inr rs"
      using rs by simp
    from link_zones_Inr [OF this]
    have len: "length rs = length zones"
      and nth: "\<forall>i < length zones. \<exists>v dst. rs ! i = (?zs ! i)(local \<mapsto> Linked dst)"
      by auto
    have "(rs ! i) n = zone_object (zones ! i) n"
      if i: "i < length rs" and n: "n \<noteq> local" for i n
    proof -
      from nth i len obtain dst where "rs ! i = (?zs ! i)(local \<mapsto> Linked dst)" by auto
      then show ?thesis using n i len by simp
    qed
    then show ?thesis using len by simp
  qed
  show ?thesis
    using a b c d by blast
qed


lemma concrete_names:
  "name (gen_at [41, 0, 5, 0] 0) = ''instrument''"
  "name (gen_at [41, 0, 0, 0] 0) = ''instrument''"
  "name (gen_at [17, 0, 1, 0] 0) = ''pan''"
  by (simp_all add: name_def gen_at_def le16_def word_cat_eq Generator_names_def)

lemma concrete_values:
  "value (gen_at [41, 0, 5, 0] 0) = NumV 5"
  "value (gen_at [41, 0, 0, 0] 0) = NumV 0"
  "value (gen_at [17, 0, 1, 0] 0) = NumV 1"
  by (simp_all add: value_def kind_def gen_at_def le16_def word_cat_eq)

lemma concrete_wAmount:
  "wAmount (genAmount (gen_at [41, 0, 5, 0] 0)) = 5"
  "wAmount (genAmount (gen_at [41, 0, 0, 0] 0)) = 0"
  by (simp_all add: gen_at_def le16_def word_cat_eq)

text \<open>
  The claim as stated fails on the zones \<open>[instrument 5]\<close>, \<open>[pan 1]\<close> with an instrument
  table of one row: the second zone has no \<open>instrument\<close> generator and is not first,
  yet the error is \<open>Failed to link\<close>, thrown for the first zone, not
  \<open>Unexpected global zone\<close>.
\<close>

theorem unresolved_link_before_global_zone:
  "localZones [\<lparr>gens = [gen_at [41, 0, 5, 0] 0], mods = []\<rparr>,
               \<lparr>gens = [gen_at [17, 0, 1, 0] 0], mods = []\<rparr>] ''instrument'' [()]
     = Inl Failed_to_link \<and>
   name (gen_at [17, 0, 1, 0] 0) = ''pan'' \<and>
   Failed_to_link \<noteq> Unexpected_global_zone"
  by (simp add: localZones_def shift_global_def zone_object_def concrete_names concrete_values
      link_at_def)

theorem local_zone_errors_witness:
  "[\<lparr>gens = [gen_at [17, 0, 1, 0] 0], mods = []\<rparr>,
    \<lparr>gens = [gen_at [41, 0, 0, 0] 0], mods = []\<rparr>,
    \<lparr>gens = [gen_at [17, 0, 1, 0] 0], mods = []\<rparr>] \<noteq> [] \<and>
   localZones [\<lparr>gens = [gen_at [17, 0, 1, 0] 0], mods = []\<rparr>,
               \<lparr>gens = [gen_at [41, 0, 0, 0] 0], mods = []\<rparr>,
               \<lparr>gens = [gen_at [17, 0, 1, 0] 0], mods = []\<rparr>] ''instrument'' [()]
     = Inl Unexpected_global_zone"
proof -
  let ?zg = "\<lparr>gens = [gen_at [17, 0, 1, 0] 0], mods = []\<rparr>"
  let ?z0 = "\<lparr>gens = [gen_at [41, 0, 0, 0] 0], mods = []\<rparr>"
  let ?zones = "[?zg, ?z0, ?zg]"
  have 1: "(if \<forall>g \<in> set (gens (hd ?zones)). name g \<noteq> ''instrument'' then tl ?zones else ?zones)
             = [?z0] @ ?zg # []"
    by (simp add: concrete_names)
  have 2: "\<forall>y \<in> set [?z0]. \<exists>g \<in> set (gens y). name g = ''instrument'' \<and>
            (zone_object y :: unit zone) ''instrument''
               = Some (GenValue (NumV (wAmount (genAmount g)))) \<and>
            0 \<le> wAmount (genAmount g) \<and> nat (wAmount (genAmount g)) < length [()]"
    by (simp add: concrete_names concrete_values concrete_wAmount zone_object_def)
  have 3: "\<forall>g \<in> set (gens ?zg). name g \<noteq> ''instrument''"
    by (simp add: concrete_names)
  from 1 2 3 have "\<exists>pre z post.
        (if \<forall>g \<in> set (gens (hd ?zones)). name g \<noteq> ''instrument'' then tl ?zones else ?zones)
          = pre @ z # post \<and>
        (\<forall>y \<in> set pre. \<exists>g \<in> set (gens y). name g = ''instrument'' \<and> 
            (zone_object y :: unit zone) ''instrument''
               = Some (GenValue (NumV (wAmount (genAmount g)))) \<and>
            0 \<le> wAmount (genAmount g) \<and> nat (wAmount (genAmount g)) < length [()]) \<and>
        ((\<forall>g \<in> set (gens z). name g \<noteq> ''instrument'') \<and>
           Unexpected_global_zone = Unexpected_global_zone \<or>
         (\<exists>g \<in> set (gens z). name g = ''instrument'' \<and>
            (zone_object z :: unit zone) ''instrument''
               = Some (GenValue (NumV (wAmount (genAmount g)))) \<and>
            \<not> (0 \<le> wAmount (genAmount g) \<and> nat (wAmount (genAmount g)) < length [()]) \<and>
            Unexpected_global_zone = Failed_to_link))"
    by blast
  then show ?thesis
    using local_zone_errors [of ?zones "''instrument''" "[()]" Unexpected_global_zone]
    by simp
qed

lemma concrete_localZones:
  "map_sum id length
     (localZones [\<lparr>gens = [gen_at [41, 0, 0, 0] 0, gen_at [17, 0, 1, 0] 0], mods = []\<rparr>]
        ''instrument'' [()]) = Inr 1"
  by (simp add: localZones_def shift_global_def zone_object_def concrete_names concrete_values
      link_at_def)

lemma concrete_yaml_gens:
  "yaml_gen [''piano''] ''instrument'' (gen_at [41, 0, 0, 0] 0) = (''instrument'', YStr ''piano'')"
  "yaml_gen [''piano''] ''instrument'' (gen_at [17, 0, 1, 0] 0) = (''pan'', YNum 1)"
  by (simp_all add: yaml_gen_def concrete_names concrete_values names_at_def)

text \<open>
  Claim C2, at a preset whose first zone has the generators \<open>instrument 0\<close>, \<open>pan 1\<close>,
  in this order. The last generator of the zone is \<open>pan\<close>, so the zone lacks \<open>instrument\<close>
  as its last generator. \<open>_localZones\<close> finds \<open>instrument\<close> among the properties of the
  zone, takes no global zone off and returns the zone as a local zone, while \<open>preset\<close>,
  in both files, looks at the last generator and writes the zone as the global one.
\<close>

theorem reference_before_last_generator:
  "name (last (gens \<lparr>gens = [gen_at [41, 0, 0, 0] 0, gen_at [17, 0, 1, 0] 0], mods = []\<rparr>))
     = ''pan'' \<and>
   fst (shift_global
          (map zone_object
             [\<lparr>gens = [gen_at [41, 0, 0, 0] 0, gen_at [17, 0, 1, 0] 0], mods = []\<rparr>])
          ''instrument'' :: unit zone option \<times> unit zone list) = None \<and>
   map_sum id length
     (localZones [\<lparr>gens = [gen_at [41, 0, 0, 0] 0, gen_at [17, 0, 1, 0] 0], mods = []\<rparr>]
        ''instrument'' [()]) = Inr 1 \<and>
   preset [''piano''] [\<lparr>gens = [gen_at [41, 0, 0, 0] 0, gen_at [17, 0, 1, 0] 0], mods = []\<rparr>]
     = Inr (Some \<lparr>ygens = Some [(''instrument'', YStr ''piano''), (''pan'', YNum 1)],
                   ymods = None\<rparr>, []) \<and>
   preset_guarded [''piano'']
       [\<lparr>gens = [gen_at [41, 0, 0, 0] 0, gen_at [17, 0, 1, 0] 0], mods = []\<rparr>]
     = (Some \<lparr>ygens = Some [(''instrument'', YStr ''piano''), (''pan'', YNum 1)], ymods = None\<rparr>,
        [])"
  by (simp add: concrete_localZones shift_global_def zone_object_def concrete_names
      concrete_values preset_def preset_guarded_def yaml_zone_def concrete_yaml_gens
      get_prop_def truthy_def)

text \<open>
  \<open>preset\<close> of src/src/sf2toyaml.js throws on a first zone without generators, and
  \<open>instrument\<close> never takes a global zone off.
\<close>

lemma preset_no_generators:
  "preset instruments (\<lparr>gens = [], mods = ms\<rparr> # zones) = Inl TypeError"
  by (simp add: preset_def yaml_zone_def)

lemma instrument_no_global: "fst (instrument samples zones) = None"
  by (simp add: instrument_def)


section \<open>Properties of the sample sequence\<close>

lemma nonzero_in_empty: "\<not> j < hi \<Longrightarrow> nonzero_in smpl sm24 j hi = Inr False"
  by (subst nonzero_in.simps) simp

lemma nonzero_in_sem:
  assumes "hi \<le> length smpl" and "case sm24 of None \<Rightarrow> True | Some d \<Rightarrow> hi \<le> length d"
  shows "nonzero_in smpl sm24 j hi = Inr (has_data smpl sm24 j hi)"
  using assms
proof (induction smpl sm24 j hi rule: nonzero_in.induct)
  case (1 smpl sm24 j hi)
  show ?case
  proof (cases "j < hi")
    case False
    then show ?thesis by (simp add: nonzero_in_empty has_data_def)
  next
    case True
    have split: "has_data smpl sm24 j hi \<longleftrightarrow>
            (smpl ! j \<noteq> 0 \<or> (case sm24 of None \<Rightarrow> False | Some d \<Rightarrow> d ! j \<noteq> 0))
            \<or> has_data smpl sm24 (j + 1) hi"
    proof -
      have "{j ..< hi} = insert j {j + 1 ..< hi}" using True by auto
      then show ?thesis unfolding has_data_def by simp
    qed
    show ?thesis
    proof (cases sm24)
      case None
      then show ?thesis
        using True 1 split by (subst nonzero_in.simps) auto
    next
      case (Some d)
      then show ?thesis
        using True 1 split by (subst nonzero_in.simps) auto
    qed
  qed
qed

lemma scan_hidden:
  "scan smpl sm24 (hidden a b # b # rest)
     = (case scan smpl sm24 (b # rest) of Inl e \<Rightarrow> Inl e | Inr r \<Rightarrow> Inr (hidden a b # r))"
proof -
  have c: "clamp_end (hidden a b) b = hidden a b"
    by (simp add: clamp_end_def hidden_def)
  have "nonzero_in smpl sm24 (seg_end (hidden a b)) (seg_start b) = Inr False"
    by (rule nonzero_in_empty) (simp add: hidden_def)
  then show ?thesis by (simp add: scan.simps(3) [of _ _ "hidden a b"] c split: sum.splits)
qed

text \<open>
  Claim C5, as amended. When the scan meets two adjacent segments \<open>a\<close> and \<open>b\<close> of the
  sequence and the gap between the end of \<open>a\<close> (clamped to the start of \<open>b\<close>) and the
  start of \<open>b\<close> holds a point that is not zero in one of the two streams, it inserts
  one segment after \<open>a\<close>, named after \<open>a\<close> with \<open>_\<close> appended, that covers the whole
  gap, from the end of \<open>a\<close> to the start of \<open>b\<close>, the zero points of the gap included;
  no gap is left on either side of it. When all points of the gap are zero nothing is
  inserted. The scan then goes on with \<open>b\<close>. (The reads of the scan are within the
  data when \<open>b\<close> starts within the data.)
\<close>

theorem hidden_segment_covers_whole_gap:
  assumes "seg_start b \<le> length smpl"
    and "case sm24 of None \<Rightarrow> True | Some d \<Rightarrow> seg_start b \<le> length d"
  shows "scan smpl sm24 (a # b # rest) =
           (case scan smpl sm24 (b # rest) of
              Inl e \<Rightarrow> Inl e
            | Inr r \<Rightarrow>
                Inr (if has_data smpl sm24 (seg_end (clamp_end a b)) (seg_start b)
                     then clamp_end a b # hidden (clamp_end a b) b # r
                     else clamp_end a b # r)) \<and>
         seg_name (hidden (clamp_end a b) b) = seg_name a @ ''_'' \<and>
         seg_start (hidden (clamp_end a b) b) = seg_end (clamp_end a b) \<and>
         seg_end (hidden (clamp_end a b) b) = seg_start b \<and>
         seg_end (clamp_end a b) = min (seg_end a) (seg_start b)"
proof -
  have "nonzero_in smpl sm24 (seg_end (clamp_end a b)) (seg_start b)
          = Inr (has_data smpl sm24 (seg_end (clamp_end a b)) (seg_start b))"
    by (rule nonzero_in_sem [OF assms])
  then have "scan smpl sm24 (a # b # rest) =
           (case scan smpl sm24 (b # rest) of
              Inl e \<Rightarrow> Inl e
            | Inr r \<Rightarrow>
                Inr (if has_data smpl sm24 (seg_end (clamp_end a b)) (seg_start b)
                     then clamp_end a b # hidden (clamp_end a b) b # r
                     else clamp_end a b # r))"
    by (cases "scan smpl sm24 (b # rest)") (simp_all add: scan.simps(3) [of _ _ a] scan_hidden)
  moreover have "seg_end (clamp_end a b) = min (seg_end a) (seg_start b)"
    by (simp add: clamp_end_def)
  moreover have "seg_name (clamp_end a b) = seg_name a"
    by (simp add: clamp_end_def)
  ultimately show ?thesis
    by (simp add: hidden_def)
qed


lemma sdta_seq_example:
  "sdta_seq [(''a'', 0, 1, 44100), (''b'', 4, 5, 44100)] [1, 0, 7, 0, 1] None =
     Inr [\<lparr>seg_name = ''a'', seg_start = 0, seg_end = 1, rate = 44100\<rparr>,
          \<lparr>seg_name = ''a_'', seg_start = 1, seg_end = 4, rate = 44100\<rparr>,
          \<lparr>seg_name = ''b'', seg_start = 4, seg_end = 5, rate = 44100\<rparr>,
          \<lparr>seg_name = ''_END_'', seg_start = 5, seg_end = 5, rate = 44100\<rparr>]"
  by (simp add: sdta_seq_def scan.simps nonzero_in.simps clamp_end_def hidden_def)

theorem hidden_segment_covers_whole_gap_witness:
  "seg_start \<lparr>seg_name = ''b'', seg_start = 4, seg_end = 5, rate = 44100\<rparr>
     \<le> length [1, 0, 7, 0, 1 :: 16 word] \<and>
   [1, 0, 7, 0, 1 :: 16 word] ! 2 \<noteq> 0 \<and>
   scan [1, 0, 7, 0, 1] None
     [\<lparr>seg_name = ''a'', seg_start = 0, seg_end = 1, rate = 44100\<rparr>,
      \<lparr>seg_name = ''b'', seg_start = 4, seg_end = 5, rate = 44100\<rparr>,
      \<lparr>seg_name = ''_END_'', seg_start = 5, seg_end = 5, rate = 44100\<rparr>] =
     Inr [\<lparr>seg_name = ''a'', seg_start = 0, seg_end = 1, rate = 44100\<rparr>,
          \<lparr>seg_name = ''a_'', seg_start = 1, seg_end = 4, rate = 44100\<rparr>,
          \<lparr>seg_name = ''b'', seg_start = 4, seg_end = 5, rate = 44100\<rparr>,
          \<lparr>seg_name = ''_END_'', seg_start = 5, seg_end = 5, rate = 44100\<rparr>]"
proof -
  let ?a = "\<lparr>seg_name = ''a'', seg_start = 0, seg_end = 1, rate = 44100\<rparr>"
  let ?b = "\<lparr>seg_name = ''b'', seg_start = 4, seg_end = 5, rate = 44100\<rparr>"
  let ?e = "\<lparr>seg_name = ''_END_'', seg_start = 5, seg_end = 5, rate = 44100\<rparr>"
  have rest: "scan [1, 0, 7, 0, 1] None [?b, ?e] = Inr [?b, ?e]"
    by (simp add: scan.simps nonzero_in.simps clamp_end_def)
  have "{1 ..< 4 :: nat} = {1, 2, 3}" by auto
  then have data: "has_data [1, 0, 7, 0, 1] None 1 4"
    by (simp add: has_data_def)
  show ?thesis
    using hidden_segment_covers_whole_gap [of ?b "[1, 0, 7, 0, 1]" None ?a "[?e]"] rest data
    by (simp add: clamp_end_def hidden_def)
qed

text \<open>
  The claim as stated fails on the five sample points 1, 0, 7, 0, 1 with the samples
  \<open>a\<close> at [0, 1) and \<open>b\<close> at [4, 5): the only point of the gap that is not zero is point
  2, but the inserted segment \<open>a_\<close> is [1, 4) and takes the zero points 1 and 3 with it;
  the gaps before and after it are 0, which is what the marker \<open>{gap: 0}\<close> after \<open>a\<close>
  records.
\<close>

theorem hidden_segment_includes_silent_points:
  "sdta_seq [(''a'', 0, 1, 44100), (''b'', 4, 5, 44100)] [1, 0, 7, 0, 1] None =
     Inr [\<lparr>seg_name = ''a'', seg_start = 0, seg_end = 1, rate = 44100\<rparr>,
          \<lparr>seg_name = ''a_'', seg_start = 1, seg_end = 4, rate = 44100\<rparr>,
          \<lparr>seg_name = ''b'', seg_start = 4, seg_end = 5, rate = 44100\<rparr>,
          \<lparr>seg_name = ''_END_'', seg_start = 5, seg_end = 5, rate = 44100\<rparr>] \<and>
   [1, 0, 7, 0, 1 :: 16 word] ! 1 = 0 \<and> [1, 0, 7, 0, 1 :: 16 word] ! 3 = 0 \<and>
   YamlGen_sdta [(''a'', 0, 1, 44100), (''b'', 4, 5, 44100)] [1, 0, 7, 0, 1] None =
     Inr [Name ''a'', Gap 0, Name ''a_'', Name ''b'']"
  using sdta_seq_example by (simp add: YamlGen_sdta_def)

text \<open>
  Claim C6 on the two versions of the decoder. The segments \<open>a\<close>, \<open>b\<close> and \<open>c\<close> are
  followed by gaps of 64, 32 and 0 points. The loop of src/sf2toyaml.js compares each gap
  with 32, so it puts no marker after \<open>b\<close>, although the gap of 32 after \<open>b\<close> differs
  from the override to 64 that is active there; the later version of the loop puts the
  marker \<open>{gap: 32}\<close>. The encoder \<open>sdta16\<close>, where an override stays active, places the
  three samples of the first list at 0, 66 and 132: \<open>c\<close> was at 100.
\<close>

theorem gap_marker_missing_after_override:
  "sdta_items_32
     [\<lparr>seg_name = ''a'', seg_start = 0, seg_end = 2, rate = 44100\<rparr>,
      \<lparr>seg_name = ''b'', seg_start = 66, seg_end = 68, rate = 44100\<rparr>,
      \<lparr>seg_name = ''c'', seg_start = 100, seg_end = 102, rate = 44100\<rparr>,
      \<lparr>seg_name = ''_END_'', seg_start = 102, seg_end = 102, rate = 44100\<rparr>]
     = [Name ''a'', Gap 64, Name ''b'', Name ''c'', Gap 0] \<and>
   sdta_items
     [\<lparr>seg_name = ''a'', seg_start = 0, seg_end = 2, rate = 44100\<rparr>,
      \<lparr>seg_name = ''b'', seg_start = 66, seg_end = 68, rate = 44100\<rparr>,
      \<lparr>seg_name = ''c'', seg_start = 100, seg_end = 102, rate = 44100\<rparr>,
      \<lparr>seg_name = ''_END_'', seg_start = 102, seg_end = 102, rate = 44100\<rparr>] 32
     = [Name ''a'', Gap 64, Name ''b'', Gap 32, Name ''c'', Gap 0] \<and>
   map_sum id snd
     (sdta16 [SampleEntry \<lparr>meta_length = 2, meta_smpl = [], meta_sm24 = None\<rparr> [1, 0, 2, 0],
              GapEntry 64,
              SampleEntry \<lparr>meta_length = 2, meta_smpl = [], meta_sm24 = None\<rparr> [3, 0, 4, 0],
              SampleEntry \<lparr>meta_length = 2, meta_smpl = [], meta_sm24 = None\<rparr> [5, 0, 6, 0],
              GapEntry 0])
     = Inr [0, 66, 132]"
  by (simp add: sdta16_def u32le_def u32le_bytes_def buf_slice_def Let_def)

text \<open>
  Claim C7 on the code: two gap markers in a row, after a sample, are accepted. The
  second marker replaces the first, and the result is the result for the second marker
  alone. (A marker in front of the first sample makes \<open>YamlParse.sdta\<close> throw, but a
  \<open>TypeError\<close> of the test for 24-bit samples, not an error of its own; \<open>sdta16\<close>
  itself accepts it and emits a gap that its length field does not count.)
\<close>

theorem consecutive_gap_markers_accepted:
  "YamlParse_sdta
     [SampleEntry \<lparr>meta_length = 1, meta_smpl = [], meta_sm24 = None\<rparr> [7, 0],
      GapEntry 3, GapEntry 2]
     = Inr ([[76, 73, 83, 84, 18, 0, 0, 0, 115, 100, 116, 97, 115, 109, 112, 108, 6, 0, 0, 0],
             [7, 0], replicate 4 0], [0]) \<and>
   YamlParse_sdta
     [SampleEntry \<lparr>meta_length = 1, meta_smpl = [], meta_sm24 = None\<rparr> [7, 0],
      GapEntry 2]
     = Inr ([[76, 73, 83, 84, 18, 0, 0, 0, 115, 100, 116, 97, 115, 109, 112, 108, 6, 0, 0, 0],
             [7, 0], replicate 4 0], [0])"
  by (simp add: YamlParse_sdta_def sdta16_def u32le_def u32le_bytes_def buf_slice_def ascii_bytes_def Let_def)

lemma gap_marker_first:
  "YamlParse_sdta (GapEntry g # lst) = Inl TypeError"
  by (simp add: YamlParse_sdta_def)

lemma sdta16_gap_marker_first:
  "sdta16 [GapEntry 64] =
     Inr ([[76, 73, 83, 84, 76, 0, 0, 0, 115, 100, 116, 97, 115, 109, 112, 108, 64, 0, 0, 0],
           replicate 128 0], [])"
  by (simp add: sdta16_def u32le_def u32le_bytes_def buf_slice_def ascii_bytes_def Let_def)


section \<open>Properties of the containers\<close>

lemma length_u32le_bytes [simp]: "length (u32le_bytes n) = 4"
  by (simp add: u32le_bytes_def)

lemma length_pad4 [simp]: "length (pad4 s) = 4"
  by (simp add: pad4_def)

lemma unat_of_nat_byte: "unat (of_nat n :: byte) = n mod 256"
  by (simp add: unat_of_nat)

lemma u32_at_u32le_bytes:
  assumes "n < 4294967296"
  shows "u32_at (a @ u32le_bytes n @ rest) (length a) = n"
proof -
  have "u32_at (a @ u32le_bytes n @ rest) (length a)
          = n mod 256 + 256 * (n div 256 mod 256) + 65536 * (n div 65536 mod 256)
              + 16777216 * (n div 16777216 mod 256)"
    by (simp add: u32_at_def u32le_bytes_def nth_append unat_of_nat_byte)
  also have "\<dots> = n"
  proof -
    have a: "n = n mod 256 + 256 * (n div 256)" by simp
    have b: "n div 256 = n div 256 mod 256 + 256 * (n div 65536)"
      using div_mult2_eq [of n 256 256] by simp
    have c: "n div 65536 = n div 65536 mod 256 + 256 * (n div 16777216)"
      using div_mult2_eq [of n 65536 256] by simp
    have d: "n div 16777216 mod 256 = n div 16777216"
      using assms by (simp add: less_mult_imp_div_less)
    show ?thesis using a b c d by linarith
  qed
  finally show ?thesis .
qed

lemma RIFF_chunks_Nil [simp]: "RIFF_chunks [] pos = Inr []"
  by (subst RIFF_chunks.simps) simp

lemma RIFF_chunks_beyond: "\<not> pos < length buf \<Longrightarrow> RIFF_chunks buf pos = Inr []"
  by (subst RIFF_chunks.simps) simp


lemma ascii_char_of_byte:
  assumes "(of_char c :: nat) < 128"
  shows "char_of (unat ((of_nat (of_char c) :: byte) AND 0x7F)) = c"
proof -
  have "(of_nat (of_char c) :: byte) < 2 ^ 7"
    using assms by (simp add: word_less_nat_alt unat_of_nat)
  then have "(of_nat (of_char c) :: byte) AND mask 7 = of_nat (of_char c)"
    by (rule less_mask_eq)
  moreover have "(mask 7 :: byte) = 0x7F" by (simp add: mask_eq_exp_minus_1)
  ultimately have "(of_nat (of_char c) :: byte) AND 0x7F = of_nat (of_char c)" by simp
  then show ?thesis by (simp add: unat_of_nat)
qed

lemma ascii_space: "char_of (32 :: nat) = CHR '' ''"
  by (simp add: char_of_def bit_Suc_0_iff)

lemma replace_trailing_append:
  assumes "i = [] \<or> last i \<noteq> c"
  shows "replace_trailing c (i @ replicate k c) = i"
proof -
  have "dropWhile (\<lambda>x. x = c) (replicate k c @ rev i) = dropWhile (\<lambda>x. x = c) (rev i)"
    by (induction k) simp_all
  moreover have "dropWhile (\<lambda>x. x = c) (rev i) = rev i"
    using assms by (cases i rule: rev_cases) simp_all
  ultimately show ?thesis by (simp add: replace_trailing_def)
qed

lemma pad4_short: "length i \<le> 4 \<Longrightarrow> pad4 i = ascii_bytes i @ replicate (4 - length i) 32"
  by (simp add: pad4_def ascii_bytes_def)

lemma id_of_pad4:
  assumes "id_ok i"
  shows "replace_trailing CHR '' '' (toString_ascii (pad4 i @ rest) 0 4) = i"
proof -
  from assms have len: "length i \<le> 4" and asc: "\<forall>c \<in> set i. (of_char c :: nat) < 128"
    and sp: "i = [] \<or> last i \<noteq> CHR '' ''"
    by (simp_all add: id_ok_def)
  have "toString_ascii (pad4 i @ rest) 0 4
          = map (\<lambda>b. char_of (unat (b AND 0x7F))) (pad4 i)"
    by (simp add: toString_ascii_def buf_slice_def)
  also have "\<dots> = map (\<lambda>b. char_of (unat (b AND 0x7F))) (ascii_bytes i)
                   @ replicate (4 - length i) CHR '' ''"
    by (simp add: pad4_short [OF len] ascii_space)
  also have "map (\<lambda>b. char_of (unat (b AND 0x7F))) (ascii_bytes i) = i"
    using asc by (simp add: ascii_bytes_def o_def ascii_char_of_byte map_idI)
  finally show ?thesis
    using sp by (simp add: replace_trailing_append)
qed

lemma RIFF_chunks_drop: "RIFF_chunks buf pos = RIFF_chunks (drop pos buf) 0"
proof (induction "length buf - pos" arbitrary: buf pos rule: less_induct)
  case less
  show ?case
  proof (cases "pos + 8 \<le> length buf")
    case False
    show ?thesis
    proof (cases "pos < length buf")
      case True
      then show ?thesis
        using False
        by (subst RIFF_chunks.simps [of buf pos], subst RIFF_chunks.simps [of "drop pos buf" 0])
           auto
    next
      case False
      then show ?thesis by (simp add: RIFF_chunks_beyond)
    qed
  next
    case True
    let ?len = "u32_at buf (pos + 4)"
    have r1: "(0 < length (drop pos buf)) = (pos < length buf)"
      by simp
    have r2: "(length (drop pos buf) < 0 + 8) = (length buf < pos + 8)"
      using True by simp
    have r5: "u32_at (drop pos buf) (0 + 4) = ?len"
      using True by (simp add: u32_at_def add.commute add.left_commute)
    have r3: "(length (drop pos buf) < 0 + 8 + ?len) = (length buf < pos + 8 + ?len)"
      using True by auto
    have r4: "toString_ascii (drop pos buf) 0 (0 + 4) = toString_ascii buf pos (pos + 4)"
      by (simp add: toString_ascii_def buf_slice_def)
    have r6: "buf_slice (drop pos buf) (0 + 8) (0 + 8 + ?len)
                = buf_slice buf (pos + 8) (pos + 8 + ?len)"
      by (simp add: buf_slice_def add.commute)
    have "RIFF_chunks buf (pos + (8 + ?len + ?len mod 2))
            = RIFF_chunks (drop (pos + (8 + ?len + ?len mod 2)) buf) 0"
      using True by (intro less) simp
    moreover have "RIFF_chunks (drop pos buf) (8 + ?len + ?len mod 2)
                     = RIFF_chunks (drop (8 + ?len + ?len mod 2) (drop pos buf)) 0"
      using True by (intro less) simp
    ultimately have r7: "RIFF_chunks (drop pos buf) (0 + 8 + ?len + ?len mod 2)
                           = RIFF_chunks buf (pos + 8 + ?len + ?len mod 2)"
      by (simp add: add.commute add.left_commute add.assoc)
    show ?thesis
      apply (subst RIFF_chunks.simps [of buf pos])
      apply (subst RIFF_chunks.simps [of "drop pos buf" 0])
      apply (simp only: Let_def r1 r2 r5 r3 r4 r6 r7)
      done
  qed
qed


lemma RIFF_chunks_step:
  assumes i4: "length i4 = 4" and d: "length d = n" and n: "n < 4294967296"
  shows "RIFF_chunks (i4 @ u32le_bytes n @ d @ (if odd n then [0] else []) @ rest) 0 =
     (case
        (if replace_trailing CHR '' '' (toString_ascii i4 0 4) = ''RIFF''
            \<or> replace_trailing CHR '' '' (toString_ascii i4 0 4) = ''LIST'' then
           if length d < 4 then Inl Missing_type_name
           else
             (case RIFF_chunks (drop 4 d) 0 of
                Inl e \<Rightarrow> Inl e
              | Inr cs \<Rightarrow>
                  Inr (RIFF (replace_trailing CHR '' '' (toString_ascii d 0 4))
                            (replace_trailing CHR '' '' (toString_ascii i4 0 4) = ''LIST'')
                            (drop 4 d) cs))
         else Inr (Chunk (replace_trailing CHR '' '' (toString_ascii i4 0 4)) d))
      of
        Inl e \<Rightarrow> Inl e
      | Inr res \<Rightarrow>
          (case RIFF_chunks rest 0 of Inl e \<Rightarrow> Inl e | Inr r \<Rightarrow> Inr (res # r)))"
proof -
  let ?pad = "if odd n then [0] else [] :: Buffer"
  let ?buf = "i4 @ u32le_bytes n @ d @ ?pad @ rest"
  have r1: "(0 < length ?buf) = True"
    using i4 by simp
  have r2: "(length ?buf < 0 + 8) = False"
    using i4 by simp
  have r5: "u32_at ?buf (0 + 4) = n"
    using u32_at_u32le_bytes [OF n, of i4 "d @ ?pad @ rest"] i4 by simp
  have r3: "(length ?buf < 0 + 8 + n) = False"
    using i4 d by simp
  have r4: "toString_ascii ?buf 0 (0 + 4) = toString_ascii i4 0 4"
    using i4 by (simp add: toString_ascii_def buf_slice_def)
  have r6: "buf_slice ?buf (0 + 8) (0 + 8 + n) = d"
    using i4 d by (simp add: buf_slice_def)
  have r8: "buf_slice d 4 (length d) = drop 4 d"
    by (simp add: buf_slice_def)
  have "length ?pad = n mod 2"
    by (simp add: odd_iff_mod_2_eq_one)
  then have "drop (0 + 8 + n + n mod 2) ?buf = rest"
    using i4 d by simp
  then have r7: "RIFF_chunks ?buf (0 + 8 + n + n mod 2) = RIFF_chunks rest 0"
    using RIFF_chunks_drop [of ?buf "0 + 8 + n + n mod 2"] by simp
  show ?thesis
    apply (subst RIFF_chunks.simps [of ?buf 0])
    apply (simp only: Let_def r1 r2 r5 r3 r4 r6 r7 r8 if_True if_False)
    done
qed

lemma even_length_spec_serialize: "even (length (spec_serialize list c))"
  by (cases c) (auto simp: Let_def)

lemma even_length_children: "even (length (concat (map (spec_serialize list) cs)))"
  by (induction cs) (simp_all add: even_length_spec_serialize)

lemma parse_children:
  assumes "\<And>c rest. c \<in> set cs \<Longrightarrow>
             RIFF_chunks (spec_serialize ''LIST'' c @ rest) 0 =
               (case RIFF_chunks rest 0 of Inl e \<Rightarrow> Inl e | Inr r \<Rightarrow> Inr (c # r))"
  shows "RIFF_chunks (concat (map (spec_serialize ''LIST'') cs) @ rest) 0 =
           (case RIFF_chunks rest 0 of Inl e \<Rightarrow> Inl e | Inr r \<Rightarrow> Inr (cs @ r))"
  using assms
proof (induction cs)
  case Nil
  then show ?case by (simp split: sum.splits)
next
  case (Cons c cs)
  have "RIFF_chunks (spec_serialize ''LIST'' c @ concat (map (spec_serialize ''LIST'') cs) @ rest) 0
          = (case RIFF_chunks (concat (map (spec_serialize ''LIST'') cs) @ rest) 0 of
               Inl e \<Rightarrow> Inl e | Inr r \<Rightarrow> Inr (c # r))"
    by (rule Cons.prems) simp
  moreover have "RIFF_chunks (concat (map (spec_serialize ''LIST'') cs) @ rest) 0 =
           (case RIFF_chunks rest 0 of Inl e \<Rightarrow> Inl e | Inr r \<Rightarrow> Inr (cs @ r))"
    by (rule Cons.IH) (simp add: Cons.prems)
  ultimately show ?case by (simp split: sum.splits)
qed

lemma id_ok_list: "id_ok ''RIFF''" "id_ok ''LIST''"
  by (simp_all add: id_ok_def)

lemma parse_spec_serialize:
  "well_formed list c \<Longrightarrow>
     RIFF_chunks (spec_serialize list c @ rest) 0 =
       (case RIFF_chunks rest 0 of Inl e \<Rightarrow> Inl e | Inr r \<Rightarrow> Inr (c # r))"
proof (induction c arbitrary: list rest)
  case (Chunk i d)
  then have ok: "id_ok i" and ne: "i \<noteq> ''RIFF''" "i \<noteq> ''LIST''" and n: "length d < 4294967296"
    by simp_all
  have i: "replace_trailing CHR '' '' (toString_ascii (pad4 i) 0 4) = i"
    using id_of_pad4 [OF ok, of "[]"] by simp
  show ?case
    using RIFF_chunks_step [of "pad4 i" d "length d" rest] n ne
    by (simp add: i)
next
  case (RIFF type isList d cs)
  then have l: "list = ''RIFF'' \<or> list = ''LIST''" and il: "isList \<longleftrightarrow> list = ''LIST''"
    and ok: "id_ok type" and d: "d = concat (map (spec_serialize ''LIST'') cs)"
    and n: "4 + length d < 4294967296" and wf: "\<forall>c \<in> set cs. well_formed ''LIST'' c"
    by auto
  let ?body = "pad4 type @ d"
  have okl: "id_ok list" using l id_ok_list by auto
  have i: "replace_trailing CHR '' '' (toString_ascii (pad4 list) 0 4) = list"
    using id_of_pad4 [OF okl, of "[]"] by simp
  have t: "replace_trailing CHR '' '' (toString_ascii ?body 0 4) = type"
    using id_of_pad4 [OF ok, of d] by simp
  have "RIFF_chunks (concat (map (spec_serialize ''LIST'') cs) @ []) 0 =
           (case RIFF_chunks [] 0 of Inl e \<Rightarrow> Inl e | Inr r \<Rightarrow> Inr (cs @ r))"
    using RIFF.IH wf by (intro parse_children) simp
  then have nested: "RIFF_chunks d 0 = Inr cs"
    by (simp add: d)
  have ev: "even (length ?body)"
    using even_length_children [of "''LIST''" cs] by (simp add: d)
  show ?case
    using RIFF_chunks_step [of "pad4 list" ?body "length ?body" rest] n l il ev
    by (auto simp: i t nested d [symmetric] Let_def split: sum.splits)
qed


lemma u32le_nat: "n < 4294967296 \<Longrightarrow> u32le (int n) = Inr (u32le_bytes n)"
  by (simp add: u32le_def)

lemma riffChunk_bytes:
  "length d < 4294967296 \<Longrightarrow> riffChunk i d = Inr (pad4 i @ u32le_bytes (length d) @ d)"
  by (simp add: riffChunk_def u32le_nat)

lemma replicate_2: "replicate 2 x = [x, x]"
  by (simp add: numeral_2_eq_2)


section \<open>Properties of the INFO list\<close>

text \<open>Writing the version read from four bytes gives the four bytes back.\<close>

lemma uint_le16: "uint (le16 b0 b1) = uint b0 + 256 * uint b1"
proof -
  have b: "0 \<le> uint b0" "uint b0 < 256" "0 \<le> uint b1" "uint b1 < 256"
    using uint_bounded [of b0] uint_bounded [of b1] by simp_all
  have k: "concat_bit 8 (uint b0) (uint b1) = uint b0 + 256 * uint b1"
    using b by (simp add: concat_bit_eq take_bit_eq_mod push_bit_eq_mult)
  have "uint (le16 b0 b1) = uint (word_of_int (concat_bit 8 (uint b0) (uint b1)) :: 16 word)"
    by (simp add: le16_def word_cat_eq')
  also have "\<dots> = (uint b0 + 256 * uint b1) mod 65536"
    by (simp only: k uint_word_of_int take_bit_eq_mod) simp
  also have "\<dots> = uint b0 + 256 * uint b1"
    using b by simp
  finally show ?thesis .
qed

lemma u16le_le16: "u16le (uint (le16 b0 b1)) = Inr [b0, b1]"
proof -
  have b: "0 \<le> uint b0" "uint b0 < 256" "0 \<le> uint b1" "uint b1 < 256"
    using uint_bounded [of b0] uint_bounded [of b1] by simp_all
  have d: "(uint b0 + 256 * uint b1) div 256 = uint b1"
    using b by simp
  have z: "(256 :: byte) = 0" by simp
  have "(word_of_int (uint b0 + 256 * uint b1) :: byte) = b0"
    by (simp add: z)
  then show ?thesis
    using b by (simp add: u16le_def uint_le16 d del: of_int_add of_int_mult)
qed


lemma char_of_0: "char_of (0 :: nat) = CHR 0x00"
  by (simp add: char_of_def)

lemma small_byte_AND: "b < 128 \<Longrightarrow> b AND 0x7F = b" for b :: byte
proof -
  assume "b < 128"
  then have "b < 2 ^ 7" by simp
  then have "b AND mask 7 = b" by (rule less_mask_eq)
  moreover have "(mask 7 :: byte) = 0x7F" by (simp add: mask_eq_exp_minus_1)
  ultimately show ?thesis by simp
qed

lemma toString_ascii_small:
  "\<forall>b \<in> set d. b < 128 \<Longrightarrow> toString_ascii d 0 (length d) = map (\<lambda>b. char_of (unat b)) d"
  by (simp add: toString_ascii_def buf_slice_def small_byte_AND)

lemma ascii_bytes_chars: "ascii_bytes (map (\<lambda>b. char_of (unat b)) d) = d"
  by (simp add: ascii_bytes_def o_def byte_of_unat_mod map_idI)

lemma binary_bytes_chars: "binary_bytes (map (\<lambda>b. char_of (unat b)) d) = d"
  by (simp add: binary_bytes_def o_def byte_of_unat_mod map_idI)

lemma replace_final_zeros_pad:
  assumes "str \<noteq> []" and "even (length str)" and "last str = CHR 0x00"
  shows "replace_final_zeros str
           @ replicate (2 - length (replace_final_zeros str) mod 2) (CHR 0x00) = str"
proof -
  from assms(1,2) have len: "2 \<le> length str"
    by (cases str rule: rev_cases) (auto simp: Suc_le_eq)
  then have bl: "butlast str \<noteq> []"
    by (cases str) auto
  have s1: "str = butlast str @ [CHR 0x00]"
    using assms(1,3) append_butlast_last_id [of str] by simp
  show ?thesis
  proof (cases "last (butlast str) = CHR 0x00")
    case True
    then have s2: "butlast str = butlast (butlast str) @ [CHR 0x00]"
      using bl append_butlast_last_id [of "butlast str"] by simp
    have "even (length (butlast (butlast str)))"
      using assms(2) len by simp
    then have "length (butlast (butlast str)) mod 2 = 0"
      by presburger
    moreover have "replace_final_zeros str = butlast (butlast str)"
      using True len assms(3) by (simp add: replace_final_zeros_def)
    moreover have "butlast (butlast str) @ [CHR 0x00, CHR 0x00] = str"
      using s1 s2 by (metis append.assoc append_Cons append_Nil)
    ultimately show ?thesis
      by (simp add: replicate_2)
  next
    case False
    have "odd (length (butlast str))"
      using assms(1,2) len by simp
    then have "length (butlast str) mod 2 = 1"
      by presburger
    moreover have "replace_final_zeros str = butlast str"
      using False assms(1,3) by (simp add: replace_final_zeros_def)
    ultimately show ?thesis
      using s1 by simp
  qed
qed

lemma info_value_of_text:
  assumes "i \<noteq> ''ifil''" and "d \<noteq> []" and "even (length d)" and "last d = 0"
    and "\<forall>b \<in> set d. b < 128"
  shows "info_value_of (Chunk i d) = Text (replace_final_zeros (map (\<lambda>b. char_of (unat b)) d))"
proof -
  have "last (map (\<lambda>b. char_of (unat b)) d) = CHR 0x00"
    using assms(2,4) by (simp add: last_map char_of_0)
  then show ?thesis
    using assms by (simp add: info_value_of_def Let_def toString_ascii_small ascii_bytes_chars)
qed

lemma INFO_chunk_text:
  assumes "i \<noteq> ''ifil''" and "d \<noteq> []" and "even (length d)" and "last d = 0"
    and "\<forall>b \<in> set d. b < 128" and "length d < 4294967296"
  shows "INFO_chunk i (info_value_of (Chunk i d)) = Inr (pad4 i @ u32le_bytes (length d) @ d)"
proof -
  let ?str = "map (\<lambda>b. char_of (unat b)) d"
  have "last ?str = CHR 0x00"
    using assms(2,4) by (simp add: last_map char_of_0)
  then have "replace_final_zeros ?str
           @ replicate (2 - length (replace_final_zeros ?str) mod 2) (CHR 0x00) = ?str"
    using assms(2,3) by (intro replace_final_zeros_pad) simp_all
  then show ?thesis
    using assms(1,6)
    by (simp add: INFO_chunk_def info_value_of_text [OF assms(1-5)] String_info_def Let_def
        binary_bytes_chars riffChunk_bytes)
qed

lemma INFO_chunk_version:
  assumes "length d = 4"
  shows "INFO_chunk ''ifil'' (info_value_of (Chunk ''ifil'' d))
           = Inr (pad4 ''ifil'' @ u32le_bytes (length d) @ d)"
proof -
  from assms obtain b0 b1 b2 b3 where d: "d = [b0, b1, b2, b3]"
    by (cases d; simp; rename_tac d1; case_tac d1; simp; rename_tac d2; case_tac d2; simp;
        rename_tac d3; case_tac d3; simp)
  show ?thesis
    by (simp add: d INFO_chunk_def info_value_of_def u16le_le16 riffChunk_bytes)
qed

lemma INFO_chunk_ok:
  assumes "info_chunk_ok c" and "well_formed ''LIST'' c"
  shows "INFO_chunk (chunk_id c) (info_value_of c) = Inr (spec_serialize ''LIST'' c)"
proof (cases c)
  case (Chunk i d)
  show ?thesis
  proof (cases "i = ''ifil''")
    case True
    then show ?thesis
      using assms Chunk INFO_chunk_version [of d] by simp
  next
    case False
    then show ?thesis
      using assms Chunk INFO_chunk_text [of i d] by simp
  qed
next
  case (RIFF type isList d cs)
  then show ?thesis using assms(1) by simp
qed


lemma info_fold_notin:
  "k \<notin> chunk_id ` set cs \<Longrightarrow>
     fold (\<lambda>c res. res(chunk_id c \<mapsto> info_value_of c)) cs res k = res k"
  by (induction cs arbitrary: res) auto

lemma info_fold_distinct:
  "distinct (map chunk_id cs) \<Longrightarrow> c \<in> set cs \<Longrightarrow>
     fold (\<lambda>c res. res(chunk_id c \<mapsto> info_value_of c)) cs res (chunk_id c)
       = Some (info_value_of c)"
proof (induction cs arbitrary: res)
  case Nil
  then show ?case by simp
next
  case (Cons a cs)
  show ?case
  proof (cases "c = a")
    case True
    then have "chunk_id a \<notin> chunk_id ` set cs" using Cons.prems(1) by simp
    from info_fold_notin [OF this] show ?thesis using True by (simp add: fun_upd_def)
  next
    case False
    then have "c \<in> set cs" using Cons.prems(2) by simp
    then show ?thesis using Cons.IH Cons.prems(1) by simp
  qed
qed

lemma info_distinct:
  "distinct (map chunk_id cs) \<Longrightarrow> c \<in> set cs \<Longrightarrow> info cs (chunk_id c) = Some (info_value_of c)"
  by (simp add: info_def info_fold_distinct)

lemma INFO_chunks_ok:
  assumes "\<forall>c \<in> set xs. obj (chunk_id c) = Some (info_value_of c) \<and> info_chunk_ok c \<and>
             well_formed ''LIST'' c"
  shows "INFO_chunks (map chunk_id xs) obj = Inr (map (spec_serialize ''LIST'') xs)"
  using assms
proof (induction xs)
  case Nil
  then show ?case by simp
next
  case (Cons x xs)
  then have "INFO_chunk (chunk_id x) (info_value_of x) = Inr (spec_serialize ''LIST'' x)"
    by (simp add: INFO_chunk_ok)
  then show ?case
    using Cons by (simp del: spec_serialize.simps)
qed

lemma sum_list_length_concat: "sum_list (map length bs) = length (concat bs)"
  by (induction bs) simp_all

lemma riffList_buffers:
  assumes "4 + length (concat bs) < 4294967296"
  shows "riffList list type (map (\<lambda>b. [b]) bs)
           = Inr ((pad4 list @ u32le_bytes (4 + length (concat bs)) @ pad4 type) # bs)"
proof -
  have c: "concat (map (\<lambda>b. [b]) bs) = bs"
    by (induction bs) simp_all
  have "u32le (int (4 + length (concat bs))) = Inr (u32le_bytes (4 + length (concat bs)))"
    using assms by (rule u32le_nat)
  then show ?thesis
    by (simp add: riffList_def Let_def c sum_list_length_concat)
qed

lemma INFO_chunk_even:
  assumes "INFO_chunk k v = Inr c"
  shows "even (length c)"
proof (cases "k = ''ifil''")
  case True
  have "length b = 4"
    if "(case v of Version wMajor wMinor \<Rightarrow>
           bind_err (u16le wMajor) (\<lambda>b0. bind_err (u16le wMinor) (\<lambda>b2. Inr (b0 @ b2)))
         | _ \<Rightarrow> Inr [0, 0, 0, 0]) = Inr b" for b
    using that by (cases v) (auto simp: u16le_def bind_err_def split: if_splits)
  then show ?thesis
    using assms True
    by (auto simp: INFO_chunk_def riffChunk_def bind_err_def u32le_def split: sum.splits if_splits)
next
  case False
  let ?s = "String_info v"
  have "even (length (?s @ replicate (2 - length ?s mod 2) (CHR 0x00)))"
    by (cases "even (length ?s)") (auto simp: odd_iff_mod_2_eq_one)
  then show ?thesis
    using assms False
    by (auto simp: INFO_chunk_def riffChunk_def bind_err_def u32le_def Let_def binary_bytes_def
        split: if_splits)
qed

lemma INFO_chunks_even:
  "INFO_chunks keys obj = Inr res \<Longrightarrow> \<forall>c \<in> set res. even (length c)"
proof (induction keys arbitrary: res)
  case Nil
  then show ?case by simp
next
  case (Cons k keys)
  show ?case
  proof (cases "obj k")
    case None
    then show ?thesis using Cons by simp
  next
    case (Some v)
    then obtain c rest where c: "INFO_chunk k v = Inr c" and r: "INFO_chunks keys obj = Inr rest"
      and res: "res = c # rest"
      using Cons.prems by (auto simp: bind_err_def split: sum.splits)
    then show ?thesis
      using Cons.IH [OF r] INFO_chunk_even [OF c] by simp
  qed
qed

lemma riff_INFO_even:
  assumes "riff_INFO keys obj = Inr bufs"
  shows "\<forall>b \<in> set bufs. even (length b)"
proof -
  from assms obtain res where r: "INFO_chunks keys obj = Inr res"
    and l: "riffList ''LIST'' ''INFO'' (map (\<lambda>b. [b]) res) = Inr bufs"
    by (auto simp: riff_INFO_def bind_err_def split: sum.splits)
  have c: "concat (map (\<lambda>b. [b]) res) = res"
    by (induction res) simp_all
  from l obtain h where "bufs = h # res" "length h = 12"
    by (auto simp: riffList_def Let_def c bind_err_def u32le_def split: if_splits)
  then show ?thesis
    using INFO_chunks_even [OF r] by simp
qed



lemma pad4_examples:
  "pad4 ''LIST'' = [76, 73, 83, 84]" "pad4 ''INFO'' = [73, 78, 70, 79]"
  "pad4 ''ifil'' = [105, 102, 105, 108]" "pad4 ''INAM'' = [73, 78, 65, 77]"
  by (simp_all add: pad4_def ascii_bytes_def)




section \<open>Properties of reading the samples and compiling\<close>

lemma readWav_factor:
  "readWav sha1 m buf =
     (case readWav (\<lambda>d. meta_smpl m) m buf of
        Inl e \<Rightarrow> Inl e
      | Inr en \<Rightarrow>
          (case en of
             SampleEntry m' data \<Rightarrow>
               if sha1 data \<noteq> meta_smpl m
               then Inl Sample_data_does_not_match_recorded_checksum
               else Inr (SampleEntry m data)
           | GapEntry g \<Rightarrow> Inr (GapEntry g)))"
  by (simp add: readWav_def bind_err_def
      split: sum.split option.split chunk.split)

lemma readWav_shape:
  "case readWav sha1 m buf of Inl e \<Rightarrow> True | Inr en \<Rightarrow> (\<exists>data. en = SampleEntry m data)"
  by (simp add: readWav_def bind_err_def split: sum.split option.split chunk.split)

lemma readWav_Inr:
  assumes "readWav sha1 m buf = Inr e"
  shows "\<exists>data. e = SampleEntry m data \<and> sha1 data = meta_smpl m"
proof -
  from readWav_shape [where ?sha1.0 = "\<lambda>d. meta_smpl m" and m = m and buf = buf] assms
  show ?thesis
    by (subst (asm) (2) readWav_factor) (auto split: sum.splits entry.splits if_splits)
qed

lemma readWav_mismatch:
  assumes "readWav (\<lambda>d. meta_smpl m) m buf = Inr (SampleEntry m data)"
    and "sha1 data \<noteq> meta_smpl m"
  shows "readWav sha1 m buf = Inl Sample_data_does_not_match_recorded_checksum"
  using assms by (subst readWav_factor) simp

lemma earliest_None: "earliest ps = None \<longleftrightarrow> (\<forall>p \<in> set ps. \<not> rejected p)"
  by (induction ps) (auto simp: rejected_def split: sum.splits option.splits)

lemma earliest_Some: "earliest ps = Some r \<Longrightarrow> (fst r, Inl (snd r)) \<in> set ps"
proof (induction ps arbitrary: r)
  case Nil
  then show ?case by simp
next
  case (Cons p ps)
  obtain t out where p: "p = (t, out)" by (cases p)
  show ?case
  proof (cases out)
    case (Inr x)
    then show ?thesis using Cons p by simp
  next
    case (Inl e)
    show ?thesis
    proof (cases "earliest ps")
      case None
      then show ?thesis using Cons.prems p Inl by auto
    next
      case (Some r')
      then have "(fst r', Inl (snd r')) \<in> set ps" by (rule Cons.IH)
      then show ?thesis using Cons.prems p Inl Some by (auto split: if_splits)
    qed
  qed
qed

lemma Promise_all_rejected: "rejected (Promise_all ps) \<longleftrightarrow> (\<exists>p \<in> set ps. rejected p)"
proof (cases "earliest ps")
  case None
  then show ?thesis
    using earliest_None [of ps] by (simp add: Promise_all_def rejected_def)
next
  case (Some r)
  then have "earliest ps \<noteq> None" by simp
  then have "\<exists>p \<in> set ps. rejected p" by (simp add: earliest_None)
  then show ?thesis using Some by (simp add: Promise_all_def rejected_def)
qed

lemma Promise_all_error:
  assumes "snd (Promise_all ps) = Inl e"
  shows "\<exists>p \<in> set ps. snd p = Inl e"
proof (cases "earliest ps")
  case None
  then show ?thesis using assms by (simp add: Promise_all_def)
next
  case (Some r)
  then have "snd r = e" using assms by (simp add: Promise_all_def)
  then show ?thesis using earliest_Some [OF Some] by force
qed

lemma Promise_all_only:
  assumes "\<exists>p \<in> set ps. rejected p" and "\<forall>q \<in> set ps. rejected q \<longrightarrow> snd q = Inl e"
  shows "snd (Promise_all ps) = Inl e"
proof -
  have "rejected (Promise_all ps)" using assms(1) by (simp add: Promise_all_rejected)
  then obtain e' where e': "snd (Promise_all ps) = Inl e'"
    by (cases "snd (Promise_all ps)") (auto simp: rejected_def)
  from Promise_all_error [OF this] obtain p where "p \<in> set ps" "snd p = Inl e'" by auto
  then have "e' = e" using assms(2) by (auto simp: rejected_def)
  then show ?thesis using e' by simp
qed

lemma Promise_then_Inl: "snd p = Inl e \<Longrightarrow> snd (Promise_then p f) = Inl e"
  by (simp add: Promise_then_def)

lemma Promise_then_rejected: "rejected p \<Longrightarrow> rejected (Promise_then p f)"
  by (cases "snd p") (auto simp: Promise_then_def rejected_def)

lemma map_or_throw_Inr: "map_or_throw rs = Inr xs \<Longrightarrow> rs = map Inr xs"
proof (induction rs arbitrary: xs)
  case Nil
  then show ?case by simp
next
  case (Cons r rs)
  then show ?case
    by (cases r; cases "map_or_throw rs") auto
qed

lemma map_or_throw_map_Inr: "map_or_throw (map Inr xs) = Inr xs"
  by (induction xs) auto

lemma riffList_error: "riffList list k parts = Inl e \<Longrightarrow> e = RangeError"
  by (auto simp: riffList_def Let_def u32le_def bind_err_def split: if_splits)

lemma riffDispatch_fails:
  "k \<in> set (invoked handlers data) \<Longrightarrow> handlers k = Some p \<Longrightarrow> rejected p \<Longrightarrow>
     (case riffDispatch handlers list data of Inl e \<Rightarrow> True | Inr q \<Rightarrow> rejected q)"
proof (induction handlers list data rule: riffDispatch.induct)
  case (1 handlers list s)
  then show ?case by simp
next
  case (2 handlers list k' v)
  show ?case
  proof (cases "handlers k'")
    case (Some r)
    then have "k = k'" using 2(2) by simp
    then show ?thesis using Some 2(3,4) by simp
  next
    case None
    with 2(2) obtain y where y: "y \<in> set v" "k \<in> set (invoked handlers y)" by auto
    have ih: "case riffDispatch handlers ''LIST'' y of Inl e \<Rightarrow> True | Inr q \<Rightarrow> rejected q"
      by (rule 2(1) [OF None y(1) y(2) 2(3) 2(4)])
    show ?thesis
    proof (cases "map_or_throw (map (riffDispatch handlers ''LIST'') v)")
      case (Inl e)
      then show ?thesis using None by simp
    next
      case (Inr ps)
      then have "map (riffDispatch handlers ''LIST'') v = map Inr ps"
        by (rule map_or_throw_Inr)
      moreover have "riffDispatch handlers ''LIST'' y \<in> set (map (riffDispatch handlers ''LIST'') v)"
        using y(1) by simp
      ultimately have "riffDispatch handlers ''LIST'' y \<in> Inr ` set ps"
        by simp
      then obtain q where q: "q \<in> set ps" "riffDispatch handlers ''LIST'' y = Inr q" by auto
      then have "rejected q" using ih by simp
      then have "rejected (Promise_all ps)" using q(1) by (auto simp: Promise_all_rejected)
      then have "rejected (Promise_then (Promise_all ps) (riffList list k'))"
        by (rule Promise_then_rejected)
      then show ?thesis using None Inr by simp
    qed
  qed
qed

lemma riffDispatch_only:
  "\<forall>k \<in> set (invoked handlers data). \<exists>p. handlers k = Some p \<and> (rejected p \<longrightarrow> snd p = Inl e) \<Longrightarrow>
     \<exists>q. riffDispatch handlers list data = Inr q \<and>
         (rejected q \<longrightarrow> snd q = Inl e \<or> snd q = Inl RangeError)"
proof (induction handlers list data rule: riffDispatch.induct)
  case (1 handlers list s)
  then show ?case by auto
next
  case (2 handlers list k' v)
  show ?case
  proof (cases "handlers k'")
    case (Some r)
    then show ?thesis using 2(2) by auto
  next
    case None
    have ih: "\<exists>q. riffDispatch handlers ''LIST'' y = Inr q \<and>
                 (rejected q \<longrightarrow> snd q = Inl e \<or> snd q = Inl RangeError)"
      if "y \<in> set v" for y
    proof (rule 2(1) [OF None that])
      show "\<forall>k \<in> set (invoked handlers y).
              \<exists>p. handlers k = Some p \<and> (rejected p \<longrightarrow> snd p = Inl e)"
        using 2(2) None that by auto
    qed
    define qs where "qs = map (\<lambda>y. projr (riffDispatch handlers ''LIST'' y)) v"
    have "riffDispatch handlers ''LIST'' y = Inr (projr (riffDispatch handlers ''LIST'' y))"
      if "y \<in> set v" for y
      using ih [OF that] by auto
    then have m: "map (riffDispatch handlers ''LIST'') v = map Inr qs"
      unfolding qs_def by simp
    have qs: "\<forall>q \<in> set qs. rejected q \<longrightarrow> snd q = Inl e \<or> snd q = Inl RangeError"
      unfolding qs_def using ih by force
    let ?r = "Promise_then (Promise_all qs) (riffList list k')"
    have r: "riffDispatch handlers list (YObject k' v) = Inr ?r"
      using None m by (simp add: map_or_throw_map_Inr)
    have "snd ?r = Inl e \<or> snd ?r = Inl RangeError" if rej: "rejected ?r"
    proof (cases "rejected (Promise_all qs)")
      case True
      then obtain e' where e': "snd (Promise_all qs) = Inl e'"
        by (cases "snd (Promise_all qs)") (auto simp: rejected_def)
      from Promise_all_error [OF this] obtain q where "q \<in> set qs" "snd q = Inl e'" by auto
      then have "e' = e \<or> e' = RangeError" using qs by (auto simp: rejected_def)
      then show ?thesis using Promise_then_Inl [OF e', of "riffList list k'"] by auto
    next
      case False
      then obtain parts where "snd (Promise_all qs) = Inr parts"
        by (cases "snd (Promise_all qs)") (auto simp: rejected_def)
      then have "snd ?r = riffList list k' parts" by (simp add: Promise_then_def)
      then show ?thesis using rej riffList_error [of list k' parts]
        by (cases "riffList list k' parts") (auto simp: rejected_def)
    qed
    then show ?thesis using r by simp
  qed
qed



text \<open>
  An example: a WAV file of two points, 16 bit, mono, 44100 Hz, read with a descriptor
  whose digest is not the one of the payload.
\<close>

lemma wav_example_parse:
  "new_RIFF [82, 73, 70, 70, 40, 0, 0, 0, 87, 65, 86, 69,
      102, 109, 116, 32, 16, 0, 0, 0,
      1, 0, 1, 0, 68, 172, 0, 0, 136, 88, 1, 0, 2, 0, 16, 0,
      100, 97, 116, 97, 4, 0, 0, 0, 1, 0, 2, 0]
     = Inr [RIFF ''WAVE'' False
              [102, 109, 116, 32, 16, 0, 0, 0,
      1, 0, 1, 0, 68, 172, 0, 0, 136, 88, 1, 0, 2, 0, 16, 0,
      100, 97, 116, 97, 4, 0, 0, 0, 1, 0, 2, 0]
              [Chunk ''fmt'' [1, 0, 1, 0, 68, 172, 0, 0, 136, 88, 1, 0, 2, 0, 16, 0],
               Chunk ''data'' [1, 0, 2, 0]]]"
proof -
  let ?c = "RIFF ''WAVE'' False
              [102, 109, 116, 32, 16, 0, 0, 0,
      1, 0, 1, 0, 68, 172, 0, 0, 136, 88, 1, 0, 2, 0, 16, 0,
      100, 97, 116, 97, 4, 0, 0, 0, 1, 0, 2, 0]
              [Chunk ''fmt'' [1, 0, 1, 0, 68, 172, 0, 0, 136, 88, 1, 0, 2, 0, 16, 0],
               Chunk ''data'' [1, 0, 2, 0]]"
  have p: "pad4 ''fmt'' = [102, 109, 116, 32]" "pad4 ''data'' = [100, 97, 116, 97]"
    "pad4 ''WAVE'' = [87, 65, 86, 69]" "pad4 ''RIFF'' = [82, 73, 70, 70]"
    by (simp_all add: pad4_def ascii_bytes_def)
  have wf: "well_formed ''RIFF'' ?c"
    by (simp add: id_ok_def p u32le_bytes_def)
  have e: "spec_serialize ''RIFF'' ?c =
            [82, 73, 70, 70, 40, 0, 0, 0, 87, 65, 86, 69,
      102, 109, 116, 32, 16, 0, 0, 0,
      1, 0, 1, 0, 68, 172, 0, 0, 136, 88, 1, 0, 2, 0, 16, 0,
      100, 97, 116, 97, 4, 0, 0, 0, 1, 0, 2, 0]"
    by (simp add: p u32le_bytes_def)
  have "RIFF_chunks (spec_serialize ''RIFF'' ?c) 0 = Inr [?c]"
    using parse_spec_serialize [OF wf, of "[]"] by (simp del: spec_serialize.simps)
  then show ?thesis
    by (simp only: e new_RIFF_def)
qed

lemma wav_example_accepted:
  "readWav (\<lambda>d. ''beef'') \<lparr>meta_length = 2, meta_smpl = ''beef'', meta_sm24 = None\<rparr>
     [82, 73, 70, 70, 40, 0, 0, 0, 87, 65, 86, 69,
      102, 109, 116, 32, 16, 0, 0, 0,
      1, 0, 1, 0, 68, 172, 0, 0, 136, 88, 1, 0, 2, 0, 16, 0,
      100, 97, 116, 97, 4, 0, 0, 0, 1, 0, 2, 0]
     = Inr (SampleEntry \<lparr>meta_length = 2, meta_smpl = ''beef'', meta_sm24 = None\<rparr> [1, 0, 2, 0])"
  by (simp add: readWav_def wav_example_parse readUInt16LE_def readUInt32LE_def u32_at_def
      le16_def word_cat_eq)

lemma wav_example_rejected:
  "readWav (\<lambda>d. ''f00d'') \<lparr>meta_length = 2, meta_smpl = ''beef'', meta_sm24 = None\<rparr>
     [82, 73, 70, 70, 40, 0, 0, 0, 87, 65, 86, 69,
      102, 109, 116, 32, 16, 0, 0, 0,
      1, 0, 1, 0, 68, 172, 0, 0, 136, 88, 1, 0, 2, 0, 16, 0,
      100, 97, 116, 97, 4, 0, 0, 0, 1, 0, 2, 0]
     = Inl Sample_data_does_not_match_recorded_checksum"
proof -
  have "readWav (\<lambda>d. meta_smpl \<lparr>meta_length = 2, meta_smpl = ''beef'', meta_sm24 = None\<rparr>) \<lparr>meta_length = 2, meta_smpl = ''beef'', meta_sm24 = None\<rparr>
          [82, 73, 70, 70, 40, 0, 0, 0, 87, 65, 86, 69,
      102, 109, 116, 32, 16, 0, 0, 0,
      1, 0, 1, 0, 68, 172, 0, 0, 136, 88, 1, 0, 2, 0, 16, 0,
      100, 97, 116, 97, 4, 0, 0, 0, 1, 0, 2, 0]
          = Inr (SampleEntry \<lparr>meta_length = 2, meta_smpl = ''beef'', meta_sm24 = None\<rparr> [1, 0, 2, 0])"
    using wav_example_accepted by simp
  then show ?thesis
    by (rule readWav_mismatch) simp
qed



end
